theory Spec2Isabelle
  imports Complex_Main "HOL-Library.Log_Nat"
begin

unbundle bit_operations_syntax

section \<open>The path animator of farcaster-grid\<close>

text \<open>
  A shallow embedding of \<^verbatim>\<open>src/components/GridCanvas.tsx\<close> and of its near-duplicate
  \<^verbatim>\<open>src/components/PachinkoCanvas.tsx\<close>. A JavaScript \<^verbatim>\<open>number\<close> is modelled as a
  \<^typ>\<open>real\<close>: every coordinate the components compute is an integer far below \<open>2^53\<close>,
  where IEEE doubles are exact. The inexact operations that decide a coordinate or a choice,
  the products of a random draw under \<^verbatim>\<open>Math.floor\<close> (the start column, the picks of the
  color scheme), are rounded to the nearest double explicitly.
  Loop bounds (\<^verbatim>\<open>numRows\<close>, \<^verbatim>\<open>numBalls\<close>) are naturals.
  The results of successive \<^verbatim>\<open>Math.random()\<close> calls are a sequence \<open>rnd :: nat \<Rightarrow> real\<close>,
  \<open>rnd k\<close> being the value of the \<open>k\<close>-th call (counted from 0).
\<close>

subsection \<open>Constants of the two components\<close>

record config =
  numRows :: nat
  numBalls :: nat
  stepSize :: real
  totalCols :: real
  visibleCols :: real
  canvasWidth :: real
  canvasHeight :: real

definition GridCanvas :: config where
  "GridCanvas = \<lparr>numRows = 40, numBalls = 100, stepSize = 30, totalCols = 40,
     visibleCols = 30, canvasWidth = 900, canvasHeight = 1200\<rparr>"

definition PachinkoCanvas :: config where
  "PachinkoCanvas = \<lparr>numRows = 40, numBalls = 200, stepSize = 30, totalCols = 40,
     visibleCols = 30, canvasWidth = 900, canvasHeight = 1200\<rparr>"

definition startColRange :: "config \<Rightarrow> real \<times> real" where
  "startColRange cfg = (- totalCols cfg / 2, totalCols cfg / 2)"

subsection \<open>Points and the random walk\<close>

record Point =
  x :: real
  y :: real
  direction :: real

text \<open>
  The body of the \<^verbatim>\<open>for (let row = 1; row <= numRows; row++)\<close> loop of \<^verbatim>\<open>simulateBall\<close>.
  The iteration for \<open>row\<close> makes the \<open>(row - 1)\<close>-th call of \<^verbatim>\<open>Math.random()\<close> of this
  invocation. \<^verbatim>\<open>path\<close> always holds the origin vertex, so \<^verbatim>\<open>path[path.length - 1]\<close> is
  in range.
\<close>

function simulateBall_loop :: "config \<Rightarrow> (nat \<Rightarrow> real) \<Rightarrow> nat \<Rightarrow> Point list \<Rightarrow> Point list" where
  "simulateBall_loop cfg rnd row path =
     (if row \<le> numRows cfg then
        (let last = path ! (length path - 1);
             direction = (if rnd (row - 1) < 0.5 then - 1 else 1);
             newX = x last + direction * stepSize cfg;
             newY = y last + stepSize cfg
         in simulateBall_loop cfg rnd (row + 1)
              (path @ [\<lparr>x = newX, y = newY, direction = direction\<rparr>]))
      else path)"
  by pat_completeness auto
termination
  by (relation "measure (\<lambda>(cfg, rnd, row, path). numRows cfg + 1 - row)") auto

definition simulateBall :: "config \<Rightarrow> (nat \<Rightarrow> real) \<Rightarrow> real \<Rightarrow> Point list" where
  "simulateBall cfg rnd startX =
     simulateBall_loop cfg rnd 1 [\<lparr>x = startX, y = 0, direction = 0\<rparr>]"

text \<open>
  One step of descent: what the loop body establishes between the previous last vertex
  and the vertex it pushes.
\<close>

definition descends :: "config \<Rightarrow> Point \<Rightarrow> Point \<Rightarrow> bool" where
  "descends cfg p q \<longleftrightarrow>
     y q - y p = stepSize cfg \<and>
     x q - x p = direction q * stepSize cfg \<and>
     (direction q = - 1 \<or> direction q = 1)"

definition chain :: "config \<Rightarrow> Point list \<Rightarrow> bool" where
  "chain cfg path \<longleftrightarrow> (\<forall>i. Suc i < length path \<longrightarrow> descends cfg (path ! i) (path ! Suc i))"

subsection \<open>Starting column, batch generation and recentering\<close>

text \<open>
  Rounding to the nearest binary64 value, ties to even, for \<open>\<bar>v\<bar> < 2 ^ 1024\<close>. Scaled by
  \<open>2 ^ 1074\<close> every double is an integer of at most 53 significant bits, so the scaled value
  is rounded to an integer after dropping the bits beyond the 53rd. A double is a value
  that rounding leaves as it is.
\<close>

definition roundHalfEven :: "real \<Rightarrow> int" where
  "roundHalfEven v =
     (let f = \<lfloor>v\<rfloor>; d = v - real_of_int f
      in if d < 1 / 2 then f else if 1 / 2 < d then f + 1 else if even f then f else f + 1)"

definition subnormalBits :: nat where
  "subnormalBits = 1074"

definition toDouble :: "real \<Rightarrow> real" where
  "toDouble v =
     (let w = \<bar>v\<bar> * 2 ^ subnormalBits;
          s = nat (bitlen \<lfloor>w\<rfloor> - 53)
      in sgn v * (real_of_int (roundHalfEven (w / 2 ^ s)) * 2 ^ s / 2 ^ subnormalBits))"

definition isDouble :: "real \<Rightarrow> bool" where
  "isDouble v \<longleftrightarrow> toDouble v = v"

text \<open>The number of fractional bits of the grid on which a value below \<open>2 ^ 53\<close> is rounded.\<close>

definition gridBits :: "real \<Rightarrow> nat" where
  "gridBits v = subnormalBits - nat (bitlen \<lfloor>v * 2 ^ subnormalBits\<rfloor> - 53)"

text \<open>
  The expression bound to \<^verbatim>\<open>startX\<close> inside \<^verbatim>\<open>regenerate\<close>, as a function of the value
  \<open>r\<close> returned by \<^verbatim>\<open>Math.random()\<close>; \<open>startCol\<close> is its factor before the scaling by
  \<^verbatim>\<open>stepSize\<close>. The product of \<open>r\<close> and the number of columns is a rounded double; the
  range bounds, their difference, the sum after \<^verbatim>\<open>Math.floor\<close> and the scaling are exact
  for the integer constants of the components.
\<close>

definition startCol :: "config \<Rightarrow> real \<Rightarrow> real" where
  "startCol cfg r =
     real_of_int \<lfloor>toDouble (r * (snd (startColRange cfg) - fst (startColRange cfg) + 1))\<rfloor>
       + fst (startColRange cfg)"

definition startX_of :: "config \<Rightarrow> real \<Rightarrow> real" where
  "startX_of cfg r = startCol cfg r * stepSize cfg"

text \<open>
  \<^verbatim>\<open>Array.from({ length: numBalls }, () => ...)\<close>: ball \<open>b\<close> draws one random value for its
  start and then \<^verbatim>\<open>numRows\<close> values inside \<^verbatim>\<open>simulateBall\<close>.
\<close>

definition allPaths :: "config \<Rightarrow> (nat \<Rightarrow> real) \<Rightarrow> Point list list" where
  "allPaths cfg rnd =
     map (\<lambda>b. simulateBall cfg (\<lambda>k. rnd (b * (numRows cfg + 1) + 1 + k))
                (startX_of cfg (rnd (b * (numRows cfg + 1)))))
       [0..<numBalls cfg]"

definition centerOffset :: "config \<Rightarrow> real" where
  "centerOffset cfg = ((totalCols cfg - visibleCols cfg) / 2) * stepSize cfg"

text \<open>The \<^verbatim>\<open>allPaths.map((path) => path.map((p) => ...))\<close> that \<^verbatim>\<open>regenerate\<close> binds to \<^verbatim>\<open>paths\<close>.\<close>

definition recenter :: "config \<Rightarrow> Point list list \<Rightarrow> Point list list" where
  "recenter cfg all =
     map (\<lambda>path. map (\<lambda>p. \<lparr>x = x p - centerOffset cfg + canvasWidth cfg / 2,
                              y = y p, direction = direction p\<rparr>) path) all"

subsection \<open>Color interpolation\<close>

text \<open>
  Strings are ASCII \<^typ>\<open>string\<close>s. \<^verbatim>\<open>parseInt(s, 16)\<close> follows ECMAScript: leading white
  space, an optional sign and an optional \<^verbatim>\<open>0x\<close> prefix are skipped, then the longest run of
  hexadecimal digits is read; \<open>None\<close> stands for \<^verbatim>\<open>NaN\<close>. The value is the exact integer,
  as the double is for up to 13 digits. \<^verbatim>\<open>>>\<close> and \<^verbatim>\<open>&\<close> work on the 32-bit signed
  conversion of their operand, which sends \<^verbatim>\<open>NaN\<close> to 0.
\<close>

datatype error = TypeError

definition jsIndex :: "'a list \<Rightarrow> int \<Rightarrow> 'a option" where
  \<comment> \<open>\<^verbatim>\<open>xs[i]\<close> for an integer \<open>i\<close>: \<open>None\<close> is \<^verbatim>\<open>undefined\<close>.\<close>
  "jsIndex xs i = (if 0 \<le> i \<and> i < int (length xs) then Some (xs ! nat i) else None)"

definition isWhiteSpace :: "char \<Rightarrow> bool" where
  "isWhiteSpace c \<longleftrightarrow> (of_char c :: nat) \<in> {9, 10, 11, 12, 13, 32}"

definition hexDigitValue :: "char \<Rightarrow> nat option" where
  "hexDigitValue c =
     (let n = (of_char c :: nat)
      in if 48 \<le> n \<and> n \<le> 57 then Some (n - 48)
         else if 97 \<le> n \<and> n \<le> 102 then Some (n - 87)
         else if 65 \<le> n \<and> n \<le> 70 then Some (n - 55)
         else None)"

definition parseInt16 :: "string \<Rightarrow> int option" where
  "parseInt16 str =
     (let s1 = dropWhile isWhiteSpace str;
          sign = (if s1 \<noteq> [] \<and> hd s1 = CHR ''-'' then - 1 else 1);
          s2 = (if s1 \<noteq> [] \<and> (hd s1 = CHR ''+'' \<or> hd s1 = CHR ''-'') then tl s1 else s1);
          s3 = (if take 2 s2 = ''0x'' \<or> take 2 s2 = ''0X'' then drop 2 s2 else s2);
          ds = takeWhile (\<lambda>c. hexDigitValue c \<noteq> None) s3
      in if ds = [] then None
         else Some (sign * int (foldl (\<lambda>acc c. 16 * acc + the (hexDigitValue c)) 0 ds)))"

definition toInt32 :: "int option \<Rightarrow> int" where
  "toInt32 v = (case v of None \<Rightarrow> 0 | Some n \<Rightarrow> signed_take_bit 31 n)"

definition hexToRgb :: "string \<Rightarrow> int \<times> int \<times> int" where
  "hexToRgb hex =
     (let bigint = toInt32 (parseInt16 (drop 1 hex))
      in (drop_bit 16 bigint AND 255, drop_bit 8 bigint AND 255, bigint AND 255))"

definition Math_round :: "real \<Rightarrow> int" where
  "Math_round v = \<lfloor>v + 1 / 2\<rfloor>"

definition hexDigits :: string where
  "hexDigits = ''0123456789abcdef''"

fun digits16 :: "nat \<Rightarrow> string" where
  "digits16 n = (if n < 16 then [hexDigits ! n] else digits16 (n div 16) @ [hexDigits ! (n mod 16)])"

definition toString16 :: "int \<Rightarrow> string" where
  \<comment> \<open>\<^verbatim>\<open>v.toString(16)\<close> for an integer \<open>v\<close>\<close>
  "toString16 v = (if v < 0 then CHR ''-'' # digits16 (nat (- v)) else digits16 (nat v))"

definition padStart :: "nat \<Rightarrow> char \<Rightarrow> string \<Rightarrow> string" where
  "padStart n c s = replicate (n - length s) c @ s"

definition rgbToHex :: "real \<Rightarrow> real \<Rightarrow> real \<Rightarrow> string" where
  "rgbToHex r g b =
     CHR ''#'' # concat (map (\<lambda>v. padStart 2 (CHR ''0'') (toString16 (Math_round v))) [r, g, b])"

text \<open>
  \<^verbatim>\<open>hexToRgb(undefined)\<close> throws a \<^verbatim>\<open>TypeError\<close> at \<^verbatim>\<open>hex.slice\<close>; this is the only way
  \<^verbatim>\<open>interpolateColor\<close> fails on a list of strings.
\<close>

definition interpolateColor :: "string list \<Rightarrow> real \<Rightarrow> error + string" where
  "interpolateColor gradient ratio =
     (let n = int (length gradient) - 1;
          scaled = ratio * real_of_int n;
          i = \<lfloor>scaled\<rfloor>;
          t = scaled - real_of_int i
      in case jsIndex gradient i of
           None \<Rightarrow> Inl TypeError
         | Some c1 \<Rightarrow>
            (case jsIndex gradient (i + 1) of
               None \<Rightarrow> Inl TypeError
             | Some c2 \<Rightarrow>
                (let (r1, g1, b1) = hexToRgb c1;
                     (r2, g2, b2) = hexToRgb c2;
                     r = real_of_int r1 + real_of_int (r2 - r1) * t;
                     g = real_of_int g1 + real_of_int (g2 - g1) * t;
                     b = real_of_int b1 + real_of_int (b2 - b1) * t
                 in Inr (rgbToHex r g b))))"

text \<open>A control color as the components write them: \<^verbatim>\<open>#\<close> and six lowercase hex digits.\<close>

definition validColor :: "string \<Rightarrow> bool" where
  "validColor c \<longleftrightarrow> length c = 7 \<and> c ! 0 = CHR ''#'' \<and> (\<forall>k \<in> {1..<7}. c ! k \<in> set hexDigits)"

definition gradients :: "(string \<times> string list) list" where
  "gradients =
     [(''neon'', [''#00ffe5'', ''#ff00ff'', ''#ffff00'', ''#00ff00'']),
      (''sunset'', [''#ff7e5f'', ''#feb47b'', ''#ff6e7f'', ''#bfe9ff'']),
      (''cyberpunk'', [''#ff00c8'', ''#00f0ff'', ''#faff00'', ''#ff6f00''])]"

definition tintOptions :: "(string \<times> string) list" where
  \<comment> \<open>pairs \<^verbatim>\<open>(left, right)\<close>\<close>
  "tintOptions =
     [(''rgba(0,255,255,0.25)'', ''rgba(255,0,255,0.25)''),
      (''rgba(255,0,0,0.25)'', ''rgba(0,255,0,0.25)''),
      (''rgba(0,128,255,0.25)'', ''rgba(255,255,0,0.25)'')]"

definition backgroundOptions :: "string list" where
  "backgroundOptions = [''#0d0221'', ''#ffffff'']"

subsection \<open>Component state, \<^verbatim>\<open>regenerate\<close> and the reveal timer\<close>

text \<open>
  The state of a mounted component: its React state variables, the intervals created by
  \<^verbatim>\<open>setInterval\<close> and not yet cleared, each with the \<^verbatim>\<open>index\<close> and \<^verbatim>\<open>paths\<close> its callback
  closes over, and the notifications sent to the host so far. \<open>AnimationEnd i\<close> records a
  call of \<^verbatim>\<open>onAnimationEnd\<close> made by the callback of interval \<open>i\<close>. A state variable set to
  \<^verbatim>\<open>undefined\<close> is \<open>None\<close>. The updater passed to \<^verbatim>\<open>setVisiblePaths\<close> runs once per tick.
\<close>

datatype event = AnimationStart | AnimationEnd nat

record timer =
  index :: nat
  paths :: "Point list list"

record state =
  visiblePaths :: "Point list list"
  selectedGradient :: "string list option"
  tints :: "(string \<times> string) option"
  bgColor :: "string option"
  timers :: "(nat \<times> timer) list"
  nextInterval :: nat
  notifications :: "event list"

text \<open>
  The value \<^verbatim>\<open>regenerate\<close> binds to \<^verbatim>\<open>paths\<close>: its first three random draws choose the
  color scheme, the following ones generate the batch.
\<close>

definition batch :: "config \<Rightarrow> (nat \<Rightarrow> real) \<Rightarrow> Point list list" where
  "batch cfg rnd = recenter cfg (allPaths cfg (\<lambda>k. rnd (3 + k)))"

definition pick :: "'a list \<Rightarrow> real \<Rightarrow> 'a option" where
  \<comment> \<open>\<^verbatim>\<open>xs[Math.floor(Math.random() * xs.length)]\<close>, the product rounded to a double\<close>
  "pick xs r = jsIndex xs \<lfloor>toDouble (r * real (length xs))\<rfloor>"

definition init_GridCanvas :: state where
  "init_GridCanvas = \<lparr>visiblePaths = [], selectedGradient = Some [],
     tints = jsIndex tintOptions 0, bgColor = jsIndex backgroundOptions 0,
     timers = [], nextInterval = 0, notifications = []\<rparr>"

definition init_PachinkoCanvas :: state where
  "init_PachinkoCanvas = \<lparr>visiblePaths = [], selectedGradient = map_of gradients ''neon'',
     tints = jsIndex tintOptions 0, bgColor = jsIndex backgroundOptions 0,
     timers = [], nextInterval = 0, notifications = []\<rparr>"

definition regenerate :: "config \<Rightarrow> (nat \<Rightarrow> real) \<Rightarrow> state \<Rightarrow> state" where
  "regenerate cfg rnd s =
     (let gradientKeys = map fst gradients;
          randomGradient = (case pick gradientKeys (rnd 0) of
                              None \<Rightarrow> None | Some k \<Rightarrow> map_of gradients k);
          randomTints = pick tintOptions (rnd 1);
          randomBackground = pick backgroundOptions (rnd 2);
          interval = nextInterval s
      in s\<lparr>notifications := notifications s @ [AnimationStart],
           selectedGradient := randomGradient,
           tints := randomTints,
           bgColor := randomBackground,
           visiblePaths := [],
           timers := timers s @ [(interval, \<lparr>index = 0, paths = batch cfg rnd\<rparr>)],
           nextInterval := Suc interval\<rparr>)"

text \<open>
  One firing of the callback of interval \<open>i\<close>. A cleared interval does not fire.
\<close>

definition tick :: "nat \<Rightarrow> state \<Rightarrow> state" where
  "tick i s =
     (case map_of (timers s) i of
        None \<Rightarrow> s
      | Some t \<Rightarrow>
          if index t < length (paths t) then
            s\<lparr>visiblePaths := visiblePaths s @ [paths t ! index t],
              timers := map (\<lambda>(j, u). if j = i then (j, u\<lparr>index := index u + 1\<rparr>) else (j, u))
                          (timers s)\<rparr>
          else
            s\<lparr>timers := filter (\<lambda>(j, u). j \<noteq> i) (timers s),
              notifications := notifications s @ [AnimationEnd i]\<rparr>)"

primrec ticks :: "nat \<Rightarrow> nat \<Rightarrow> state \<Rightarrow> state" where
  "ticks 0 i s = s"
| "ticks (Suc k) i s = tick i (ticks k i s)"


definition reveal :: "config \<Rightarrow> (nat \<Rightarrow> real) \<Rightarrow> state \<Rightarrow> nat \<Rightarrow> state" where
  "reveal cfg rnd s k = ticks k (nextInterval s) (regenerate cfg rnd s)"

text \<open>
  \<^verbatim>\<open>regenerate\<close> called again (with random source \<open>rnd2\<close>) when the generation started in
  \<open>s\<close> (with \<open>rnd1\<close>) has been ticked \<open>j\<close> times.
\<close>

definition restart :: "config \<Rightarrow> (nat \<Rightarrow> real) \<Rightarrow> (nat \<Rightarrow> real) \<Rightarrow> state \<Rightarrow> nat \<Rightarrow> state" where
  "restart cfg rnd1 rnd2 s j = regenerate cfg rnd2 (reveal cfg rnd1 s j)"

subsection \<open>The imperative handle\<close>

definition getVisibleCanvasWidth :: "config \<Rightarrow> real" where
  "getVisibleCanvasWidth cfg = canvasWidth cfg * 0.4"

datatype handleCall = Regenerate "nat \<Rightarrow> real" | GetVisibleCanvasWidth

text \<open>A call through the handle: the value returned (if any) and the state afterwards.\<close>

fun handle :: "config \<Rightarrow> handleCall \<Rightarrow> state \<Rightarrow> real option \<times> state" where
  "handle cfg (Regenerate rnd) s = (None, regenerate cfg rnd s)"
| "handle cfg GetVisibleCanvasWidth s = (Some (getVisibleCanvasWidth cfg), s)"

subsection \<open>Rendering\<close>

definition baseRatio :: "config \<Rightarrow> Point \<Rightarrow> Point \<Rightarrow> real" where
  "baseRatio cfg p1 p2 = (let avgY = (y p1 + y p2) / 2 in avgY / canvasHeight cfg)"

record Stroke =
  moveTo :: "real \<times> real"
  lineTo :: "real \<times> real"
  strokeStyle :: string
  shadowBlur :: real

definition drawSegment ::
  "config \<Rightarrow> string list option \<Rightarrow> (string \<times> string) option \<Rightarrow> Point \<Rightarrow> Point \<Rightarrow> error + Stroke list" where
  "drawSegment cfg g tn p1 p2 =
     (case g of
        None \<Rightarrow> Inl TypeError
      | Some gradient \<Rightarrow>
         (case interpolateColor gradient (baseRatio cfg p1 p2) of
            Inl e \<Rightarrow> Inl e
          | Inr baseColor \<Rightarrow>
             (case tn of
                None \<Rightarrow> Inl TypeError
              | Some (left, right) \<Rightarrow>
                 (let tint = (if direction p2 = - 1 then left else right)
                  in Inr [\<lparr>moveTo = (x p1, y p1), lineTo = (x p2, y p2),
                             strokeStyle = baseColor, shadowBlur = 0\<rparr>,
                          \<lparr>moveTo = (x p1, y p1), lineTo = (x p2, y p2),
                             strokeStyle = tint, shadowBlur = 10\<rparr>]))))"

fun collect :: "(error + 'a list) list \<Rightarrow> error + 'a list" where
  "collect [] = Inr []"
| "collect (Inl e # rs) = Inl e"
| "collect (Inr xs # rs) = (case collect rs of Inl e \<Rightarrow> Inl e | Inr ys \<Rightarrow> Inr (xs @ ys))"

definition drawPath ::
  "config \<Rightarrow> string list option \<Rightarrow> (string \<times> string) option \<Rightarrow> Point list \<Rightarrow> error + Stroke list" where
  "drawPath cfg g tn path =
     collect (map (\<lambda>i. drawSegment cfg g tn (path ! i) (path ! (i + 1))) [0..<length path - 1])"

definition render :: "config \<Rightarrow> state \<Rightarrow> error + Stroke list" where
  "render cfg s = collect (map (drawPath cfg (selectedGradient s) (tints s)) (visiblePaths s))"

subsection \<open>Reachable states\<close>

text \<open>
  \<^verbatim>\<open>Math.random()\<close> returns doubles in \<open>[0, 1)\<close>. The states a mounted component can reach
  from \<open>s0\<close>: \<^verbatim>\<open>regenerate\<close> is called (on mount or through the handle) and live intervals
  fire, in any order.
\<close>

definition unitDraws :: "(nat \<Rightarrow> real) \<Rightarrow> bool" where
  "unitDraws rnd \<longleftrightarrow> (\<forall>k. isDouble (rnd k) \<and> 0 \<le> rnd k \<and> rnd k < 1)"

inductive reachable :: "config \<Rightarrow> state \<Rightarrow> state \<Rightarrow> bool" for cfg s0 where
  start: "reachable cfg s0 s0"
| regenerated: "reachable cfg s0 s \<Longrightarrow> unitDraws rnd \<Longrightarrow> reachable cfg s0 (regenerate cfg rnd s)"
| ticked: "reachable cfg s0 s \<Longrightarrow> reachable cfg s0 (tick i s)"

text \<open>
  The invariant of the reachable states that rendering relies on: every revealed path and
  every path an interval still holds comes from a generated batch, and once a generation
  has been started the color scheme is one of the configured ones.
\<close>

definition renderable :: "config \<Rightarrow> state \<Rightarrow> bool" where
  "renderable cfg s \<longleftrightarrow>
     (\<forall>p \<in> set (visiblePaths s). \<exists>rnd. p \<in> set (batch cfg rnd)) \<and>
     (\<forall>(i, t) \<in> set (timers s). \<exists>rnd. paths t = batch cfg rnd) \<and>
     ((visiblePaths s = [] \<and> timers s = []) \<or>
      ((\<exists>name g. selectedGradient s = Some g \<and> (name, g) \<in> set gradients) \<and>
       tints s \<noteq> None))"

subsection \<open>Inputs for evaluating the model\<close>

text \<open>
  The random source whose every call returns \<open>r\<close>, and the schedule in which the intervals
  \<open>i\<close> and \<open>j\<close>, having the same period, fire alternately \<open>n\<close> times each.
\<close>

definition constDraws :: "real \<Rightarrow> nat \<Rightarrow> real" where
  "constDraws r k = r"


subsection \<open>Properties of the random walk\<close>

declare simulateBall_loop.simps [simp del]

lemma simulateBall_loop_length:
  "length (simulateBall_loop cfg rnd row path) = length path + (numRows cfg + 1 - row)"
proof (induction cfg rnd row path rule: simulateBall_loop.induct)
  case (1 cfg rnd row path)
  show ?case
  proof (cases "row \<le> numRows cfg")
    case True
    with "1.IH" show ?thesis
      by (subst simulateBall_loop.simps) (simp add: Let_def)
  next
    case False
    then show ?thesis
      by (subst simulateBall_loop.simps) simp
  qed
qed

lemma simulateBall_loop_keeps:
  "i < length path \<Longrightarrow> simulateBall_loop cfg rnd row path ! i = path ! i"
proof (induction cfg rnd row path rule: simulateBall_loop.induct)
  case (1 cfg rnd row path)
  show ?case
  proof (cases "row \<le> numRows cfg")
    case True
    with "1.IH" "1.prems" show ?thesis
      by (subst simulateBall_loop.simps) (simp add: Let_def nth_append)
  next
    case False
    then show ?thesis
      by (subst simulateBall_loop.simps) simp
  qed
qed

lemma chain_snoc:
  assumes "chain cfg path" and "path \<noteq> []"
    and "descends cfg (path ! (length path - 1)) q"
  shows "chain cfg (path @ [q])"
  unfolding chain_def
proof (intro allI impI)
  fix i
  assume i: "Suc i < length (path @ [q])"
  show "descends cfg ((path @ [q]) ! i) ((path @ [q]) ! Suc i)"
  proof (cases "Suc i < length path")
    case True
    with assms(1) show ?thesis
      by (simp add: chain_def nth_append)
  next
    case False
    with i have "length path = Suc i"
      by simp
    with assms(3) show ?thesis
      by (simp add: nth_append)
  qed
qed

lemma simulateBall_loop_chain:
  "chain cfg path \<Longrightarrow> path \<noteq> [] \<Longrightarrow> chain cfg (simulateBall_loop cfg rnd row path)"
proof (induction cfg rnd row path rule: simulateBall_loop.induct)
  case (1 cfg rnd row path)
  show ?case
  proof (cases "row \<le> numRows cfg")
    case True
    define d :: real where "d = (if rnd (row - 1) < 0.5 then - 1 else 1)"
    define q where "q = \<lparr>x = x (path ! (length path - 1)) + d * stepSize cfg,
      y = y (path ! (length path - 1)) + stepSize cfg, direction = d\<rparr>"
    have "descends cfg (path ! (length path - 1)) q"
      by (simp add: descends_def q_def d_def)
    with "1.prems" have "chain cfg (path @ [q])"
      by (rule chain_snoc)
    with "1.IH" [OF True refl refl refl refl] have "chain cfg (simulateBall_loop cfg rnd (row + 1) (path @ [q]))"
      by (simp add: q_def d_def)
    with True show ?thesis
      by (subst simulateBall_loop.simps) (simp add: Let_def q_def d_def)
  next
    case False
    with "1.prems" show ?thesis
      by (subst simulateBall_loop.simps) simp
  qed
qed

lemma simulateBall_length: "length (simulateBall cfg rnd startX) = numRows cfg + 1"
  by (simp add: simulateBall_def simulateBall_loop_length)

lemma simulateBall_origin:
  "simulateBall cfg rnd startX ! 0 = \<lparr>x = startX, y = 0, direction = 0\<rparr>"
  by (simp add: simulateBall_def simulateBall_loop_keeps)

lemma simulateBall_chain: "chain cfg (simulateBall cfg rnd startX)"
  unfolding simulateBall_def
  by (rule simulateBall_loop_chain) (simp_all add: chain_def)

lemma chain_y:
  "chain cfg path \<Longrightarrow> i < length path \<Longrightarrow> y (path ! i) = y (path ! 0) + real i * stepSize cfg"
proof (induction i)
  case 0
  then show ?case by simp
next
  case (Suc i)
  then have "descends cfg (path ! i) (path ! Suc i)"
    by (simp add: chain_def)
  with Suc show ?case
    by (simp add: descends_def algebra_simps)
qed

lemma simulateBall_nonempty: "simulateBall cfg rnd startX \<noteq> []"
  using simulateBall_length [of cfg rnd startX] by auto

text \<open>
  C5. Every path returned by \<^verbatim>\<open>simulateBall\<close>, for any start and any random source, has
  \<^verbatim>\<open>numRows + 1\<close> vertices, starts at \<open>y = 0\<close>, ends at \<open>y = numRows * stepSize\<close>, and
  descends by exactly \<^verbatim>\<open>stepSize\<close> between consecutive vertices.
\<close>

theorem simulateBall_vertical:
  "length (simulateBall cfg rnd startX) = numRows cfg + 1 \<and>
   y (hd (simulateBall cfg rnd startX)) = 0 \<and>
   y (last (simulateBall cfg rnd startX)) = real (numRows cfg) * stepSize cfg \<and>
   (\<forall>i < numRows cfg.
      y (simulateBall cfg rnd startX ! Suc i) - y (simulateBall cfg rnd startX ! i) = stepSize cfg)"
proof -
  let ?p = "simulateBall cfg rnd startX"
  have len: "length ?p = numRows cfg + 1"
    by (rule simulateBall_length)
  have first: "y (?p ! 0) = 0"
    by (simp add: simulateBall_origin)
  have "y (?p ! numRows cfg) = y (?p ! 0) + real (numRows cfg) * stepSize cfg"
    by (rule chain_y [OF simulateBall_chain]) (simp add: len)
  with first have lastv: "y (?p ! numRows cfg) = real (numRows cfg) * stepSize cfg"
    by simp
  have steps: "\<forall>i < numRows cfg. y (?p ! Suc i) - y (?p ! i) = stepSize cfg"
    using simulateBall_chain [of cfg rnd startX] len
    by (simp add: chain_def descends_def)
  from len first lastv steps show ?thesis
    by (simp add: hd_conv_nth last_conv_nth simulateBall_nonempty)
qed

theorem simulateBall_vertical_witness:
  "length (simulateBall GridCanvas (constDraws 0) 0) = 41 \<and>
   y (last (simulateBall GridCanvas (constDraws 0) 0)) = 1200 \<and>
   (0 :: nat) < numRows GridCanvas \<and>
   y (simulateBall GridCanvas (constDraws 0) 0 ! Suc 0)
     - y (simulateBall GridCanvas (constDraws 0) 0 ! 0) = 30"
  using simulateBall_vertical [of GridCanvas "constDraws 0" 0]
  by (simp add: GridCanvas_def)

text \<open>
  C6. The first vertex of a path stores direction 0; between consecutive vertices the
  x-delta is \<open>+stepSize\<close> or \<open>-stepSize\<close> and equals \<^verbatim>\<open>stepSize\<close> times the direction stored
  on the second vertex.
\<close>

theorem simulateBall_horizontal:
  "direction (hd (simulateBall cfg rnd startX)) = 0 \<and>
   (\<forall>i < numRows cfg.
      (x (simulateBall cfg rnd startX ! Suc i) - x (simulateBall cfg rnd startX ! i) = stepSize cfg \<or>
       x (simulateBall cfg rnd startX ! Suc i) - x (simulateBall cfg rnd startX ! i) = - stepSize cfg) \<and>
      x (simulateBall cfg rnd startX ! Suc i) - x (simulateBall cfg rnd startX ! i)
        = stepSize cfg * direction (simulateBall cfg rnd startX ! Suc i))"
proof -
  let ?p = "simulateBall cfg rnd startX"
  have "direction (?p ! 0) = 0"
    by (simp add: simulateBall_origin)
  then have first: "direction (hd ?p) = 0"
    by (simp add: hd_conv_nth simulateBall_nonempty)
  have "\<forall>i < numRows cfg. descends cfg (?p ! i) (?p ! Suc i)"
    using simulateBall_chain [of cfg rnd startX]
    by (simp add: chain_def simulateBall_length)
  then have "\<forall>i < numRows cfg.
      (x (?p ! Suc i) - x (?p ! i) = stepSize cfg \<or> x (?p ! Suc i) - x (?p ! i) = - stepSize cfg) \<and>
      x (?p ! Suc i) - x (?p ! i) = stepSize cfg * direction (?p ! Suc i)"
    by (auto simp: descends_def)
  with first show ?thesis
    by blast
qed

theorem simulateBall_horizontal_witness:
  "(0 :: nat) < numRows GridCanvas \<and>
   direction (hd (simulateBall GridCanvas (constDraws 0) 0)) = 0 \<and>
   x (simulateBall GridCanvas (constDraws 0) 0 ! Suc 0)
     - x (simulateBall GridCanvas (constDraws 0) 0 ! 0)
     = 30 * direction (simulateBall GridCanvas (constDraws 0) 0 ! Suc 0)"
  using simulateBall_horizontal [of GridCanvas "constDraws 0" 0]
  by (simp add: GridCanvas_def)

subsection \<open>Rounding to a double\<close>

lemma roundHalfEven_int: "roundHalfEven (real_of_int n) = n"
  by (simp add: roundHalfEven_def)

lemma roundHalfEven_ge: "real_of_int n \<le> v \<Longrightarrow> n \<le> roundHalfEven v"
proof -
  assume "real_of_int n \<le> v"
  then have "n \<le> \<lfloor>v\<rfloor>"
    by (simp add: le_floor_iff)
  then show ?thesis
    by (simp add: roundHalfEven_def Let_def)
qed

lemma roundHalfEven_le: "v \<le> real_of_int n \<Longrightarrow> roundHalfEven v \<le> n"
proof (cases "v = real_of_int n")
  case True
  then show ?thesis
    by (simp add: roundHalfEven_int)
next
  case False
  assume "v \<le> real_of_int n"
  with False have "v < real_of_int n"
    by simp
  then have "\<lfloor>v\<rfloor> < n"
    by (simp add: floor_less_iff)
  then show ?thesis
    by (simp add: roundHalfEven_def Let_def)
qed

lemma roundHalfEven_below_half:
  assumes "v < real_of_int n - 1 / 2"
  shows "roundHalfEven v < n"
proof -
  from assms have "v < real_of_int n"
    by simp
  then have f: "\<lfloor>v\<rfloor> < n"
    by (simp add: floor_less_iff)
  show ?thesis
  proof (cases "\<lfloor>v\<rfloor> = n - 1")
    case True
    with assms have "v - real_of_int \<lfloor>v\<rfloor> < 1 / 2"
      by simp
    with True show ?thesis
      by (simp add: roundHalfEven_def Let_def)
  next
    case False
    with f have "\<lfloor>v\<rfloor> + 1 < n"
      by simp
    then show ?thesis
      by (simp add: roundHalfEven_def Let_def)
  qed
qed

lemma toDouble_zero: "toDouble 0 = 0"
  by (simp add: toDouble_def)

lemma bitlen_le_power: "0 \<le> k \<Longrightarrow> k < 2 ^ n \<Longrightarrow> bitlen k \<le> int n"
  by (simp add: bitlen_le_iff_power)

lemma bitlen_ge_power: "2 ^ n \<le> k \<Longrightarrow> int n + 1 \<le> bitlen k"
  by (auto simp: bitlen_ge_iff_power nat_add_distrib)

lemma scaled_floor_less:
  fixes v :: real
  assumes "0 \<le> v" and "v < 2 ^ e"
  shows "0 \<le> \<lfloor>v * 2 ^ subnormalBits\<rfloor>" and "\<lfloor>v * 2 ^ subnormalBits\<rfloor> < 2 ^ (subnormalBits + e)"
proof -
  show "0 \<le> \<lfloor>v * 2 ^ subnormalBits\<rfloor>"
    using assms(1) by simp
  have "v * 2 ^ subnormalBits < 2 ^ e * (2::real) ^ subnormalBits"
    using assms(2) by simp
  also have "\<dots> = real_of_int (2 ^ (subnormalBits + e))"
    by (simp add: power_add)
  finally show "\<lfloor>v * 2 ^ subnormalBits\<rfloor> < 2 ^ (subnormalBits + e)"
    by (simp only: floor_less_iff)
qed

lemma scaled_floor_ge:
  fixes v :: real
  assumes "2 ^ b \<le> v * 2 ^ subnormalBits"
  shows "2 ^ b \<le> \<lfloor>v * 2 ^ subnormalBits\<rfloor>"
proof -
  have "real_of_int (2 ^ b) \<le> v * 2 ^ subnormalBits"
    using assms by simp
  then show ?thesis
    by (simp only: le_floor_iff)
qed

lemma gridBits_le: "gridBits v \<le> subnormalBits"
  by (simp add: gridBits_def)

lemma gridBits_ge:
  fixes v :: real
  assumes "0 \<le> v" and "v < 2 ^ e" and "e \<le> 53"
  shows "53 - e \<le> gridBits v"
proof -
  have "bitlen \<lfloor>v * 2 ^ subnormalBits\<rfloor> \<le> int (subnormalBits + e)"
    by (rule bitlen_le_power [OF scaled_floor_less [OF assms(1,2)]])
  then show ?thesis
    using assms(3) by (simp add: gridBits_def subnormalBits_def)
qed

lemma gridBits_binade:
  fixes v :: real
  assumes "2 ^ b \<le> v * 2 ^ subnormalBits" and "v * 2 ^ subnormalBits < 2 ^ Suc b"
    and "52 \<le> b" and "b \<le> subnormalBits + 52"
  shows "gridBits v = subnormalBits + 52 - b"
proof -
  have lo: "2 ^ b \<le> \<lfloor>v * 2 ^ subnormalBits\<rfloor>"
    by (rule scaled_floor_ge [OF assms(1)])
  have "v * 2 ^ subnormalBits < real_of_int (2 ^ Suc b)"
    using assms(2) by simp
  then have hi: "\<lfloor>v * 2 ^ subnormalBits\<rfloor> < 2 ^ Suc b"
    by (simp only: floor_less_iff)
  from lo have "0 \<le> \<lfloor>v * 2 ^ subnormalBits\<rfloor>"
    by (meson order_trans zero_le_numeral zero_le_power)
  from bitlen_le_power [OF this hi] bitlen_ge_power [OF lo]
  have "bitlen \<lfloor>v * 2 ^ subnormalBits\<rfloor> = int b + 1"
    by simp
  then show ?thesis
    using assms(3,4) by (simp add: gridBits_def)
qed

lemma toDouble_grid:
  assumes "0 \<le> v" and "v < 2 ^ 53"
  shows "toDouble v = real_of_int (roundHalfEven (v * 2 ^ gridBits v)) / 2 ^ gridBits v"
proof (cases "v = 0")
  case True
  then show ?thesis
    by (simp add: toDouble_zero roundHalfEven_def)
next
  case False
  define s where "s = nat (bitlen \<lfloor>v * 2 ^ subnormalBits\<rfloor> - 53)"
  have "bitlen \<lfloor>v * 2 ^ subnormalBits\<rfloor> \<le> int (subnormalBits + 53)"
    by (rule bitlen_le_power [OF scaled_floor_less [OF assms]])
  then have s: "s \<le> subnormalBits"
    by (simp add: s_def)
  have g: "gridBits v = subnormalBits - s"
    by (simp add: gridBits_def s_def)
  from s have pow: "(2::real) ^ subnormalBits = 2 ^ (subnormalBits - s) * 2 ^ s"
    by (simp flip: power_add)
  have scaled: "v * 2 ^ subnormalBits / 2 ^ s = v * 2 ^ (subnormalBits - s)"
    by (simp add: pow)
  have unscaled: "real_of_int n * 2 ^ s / 2 ^ subnormalBits = real_of_int n / 2 ^ (subnormalBits - s)" for n
    by (simp add: pow)
  from False assms(1) have "sgn v = 1" "\<bar>v\<bar> = v"
    by simp_all
  then have "toDouble v = real_of_int (roundHalfEven (v * 2 ^ subnormalBits / 2 ^ s)) * 2 ^ s / 2 ^ subnormalBits"
    by (simp add: toDouble_def Let_def s_def)
  then show ?thesis
    by (simp only: scaled unscaled g)
qed

text \<open>Rounding does not cross a multiple of \<open>2 ^ -47\<close> below 64.\<close>

lemma grid_multiple:
  assumes "47 \<le> k"
  shows "real_of_int n / 2 ^ 47 * 2 ^ k = real_of_int (n * 2 ^ (k - 47))"
proof -
  from assms have "47 + (k - 47) = k"
    by simp
  then have "(2::real) ^ k = 2 ^ (47 + (k - 47))"
    by (simp only:)
  then have "(2::real) ^ k = 2 ^ 47 * 2 ^ (k - 47)"
    by (simp only: power_add)
  then show ?thesis
    by simp
qed

lemma toDouble_ge_grid:
  assumes "0 \<le> v" and "v < 64" and "real_of_int n / 2 ^ 47 \<le> v"
  shows "real_of_int n / 2 ^ 47 \<le> toDouble v"
proof -
  have v: "v < 2 ^ 6" "v < 2 ^ 53"
    using assms(2) by simp_all
  have k: "47 \<le> gridBits v"
    using gridBits_ge [OF assms(1) v(1)] by simp
  have "real_of_int n / 2 ^ 47 * 2 ^ gridBits v \<le> v * 2 ^ gridBits v"
    using assms(3) by simp
  then have "n * 2 ^ (gridBits v - 47) \<le> roundHalfEven (v * 2 ^ gridBits v)"
    unfolding grid_multiple [OF k] by (rule roundHalfEven_ge)
  then have "real_of_int (n * 2 ^ (gridBits v - 47)) \<le> real_of_int (roundHalfEven (v * 2 ^ gridBits v))"
    by (simp only: of_int_le_iff)
  then have "real_of_int n / 2 ^ 47 * 2 ^ gridBits v \<le> real_of_int (roundHalfEven (v * 2 ^ gridBits v))"
    by (simp only: grid_multiple [OF k])
  then have "real_of_int n / 2 ^ 47 \<le> real_of_int (roundHalfEven (v * 2 ^ gridBits v)) / 2 ^ gridBits v"
    by (simp add: pos_le_divide_eq)
  then show ?thesis
    by (simp only: toDouble_grid [OF assms(1) v(2)])
qed

lemma toDouble_le_grid:
  assumes "0 \<le> v" and "v < 64" and "v \<le> real_of_int n / 2 ^ 47"
  shows "toDouble v \<le> real_of_int n / 2 ^ 47"
proof -
  have v: "v < 2 ^ 6" "v < 2 ^ 53"
    using assms(2) by simp_all
  have k: "47 \<le> gridBits v"
    using gridBits_ge [OF assms(1) v(1)] by simp
  have "v * 2 ^ gridBits v \<le> real_of_int n / 2 ^ 47 * 2 ^ gridBits v"
    using assms(3) by simp
  then have "roundHalfEven (v * 2 ^ gridBits v) \<le> n * 2 ^ (gridBits v - 47)"
    unfolding grid_multiple [OF k] by (rule roundHalfEven_le)
  then have "real_of_int (roundHalfEven (v * 2 ^ gridBits v)) \<le> real_of_int (n * 2 ^ (gridBits v - 47))"
    by (simp only: of_int_le_iff)
  then have "real_of_int (roundHalfEven (v * 2 ^ gridBits v)) \<le> real_of_int n / 2 ^ 47 * 2 ^ gridBits v"
    by (simp only: grid_multiple [OF k])
  then have "real_of_int (roundHalfEven (v * 2 ^ gridBits v)) / 2 ^ gridBits v \<le> real_of_int n / 2 ^ 47"
    by (simp add: pos_divide_le_eq)
  then show ?thesis
    by (simp only: toDouble_grid [OF assms(1) v(2)])
qed


lemma toDouble_grid_point:
  assumes "0 \<le> n" and "real_of_int n / 2 ^ 47 < 64"
  shows "toDouble (real_of_int n / 2 ^ 47) = real_of_int n / 2 ^ 47"
proof -
  have nonneg: "0 \<le> real_of_int n / 2 ^ 47"
    using assms(1) by simp
  show ?thesis
    by (intro antisym toDouble_le_grid [OF nonneg assms(2)] toDouble_ge_grid [OF nonneg assms(2)])
       simp_all
qed

lemma isDouble_below_one:
  assumes "isDouble r" and "0 \<le> r" and "r < 1"
  shows "r \<le> 1 - 1 / 2 ^ 53"
proof (cases "r < 1 / 2")
  case True
  have "(1::real) / 2 ^ 53 \<le> 1 / 2 ^ 1"
    by (intro divide_left_mono power_increasing) simp_all
  with True show ?thesis
    by simp
next
  case False
  define p where "p = subnormalBits - 1"
  have sub: "subnormalBits = Suc p"
    by (simp add: p_def subnormalBits_def)
  have p: "(0::real) < 2 ^ p"
    by simp
  have "1 / 2 \<le> r"
    using False by simp
  then have "1 / 2 * (2 * 2 ^ p) \<le> r * (2 * 2 ^ p)"
    using p by (intro mult_right_mono) simp_all
  then have lo: "2 ^ p \<le> r * 2 ^ subnormalBits"
    by (simp add: sub)
  have "r * (2 * 2 ^ p) < 1 * (2 * 2 ^ p)"
    using assms(3) p by (intro mult_strict_right_mono) simp_all
  then have hi: "r * 2 ^ subnormalBits < 2 ^ Suc p"
    by (simp add: sub)
  have g: "gridBits r = 53"
    using gridBits_binade [OF lo hi] by (simp add: p_def subnormalBits_def)
  have r53: "r < 2 ^ 53"
    using assms(3) by (meson less_le_trans one_le_numeral one_le_power)
  define m where "m = roundHalfEven (r * 2 ^ 53)"
  from assms(1) have r: "r = real_of_int m / 2 ^ 53"
    unfolding isDouble_def toDouble_grid [OF assms(2) r53] g m_def by simp
  with assms(3) have "real_of_int m < 2 ^ 53"
    by (simp add: pos_divide_less_eq)
  then have "real_of_int m < real_of_int (2 ^ 53)"
    by simp
  then have "m < 2 ^ 53"
    by (simp only: of_int_less_iff)
  then have "m \<le> 2 ^ 53 - 1"
    by simp
  then have "real_of_int m \<le> real_of_int (2 ^ 53 - 1)"
    by (simp only: of_int_le_iff)
  then have "real_of_int m / 2 ^ 53 \<le> real_of_int (2 ^ 53 - 1) / 2 ^ 53"
    by (simp add: divide_right_mono)
  also have "\<dots> = 1 - 1 / 2 ^ 53"
    by (simp add: diff_divide_distrib)
  finally show ?thesis
    by (simp only: r)
qed

lemma toDouble_product_below:
  assumes "0 \<le> r" and "r \<le> 1 - 1 / 2 ^ 53"
  shows "toDouble (r * 41) < 41"
proof -
  let ?v = "r * 41"
  have nonneg: "0 \<le> ?v"
    using assms(1) by simp
  have "?v \<le> (1 - 1 / 2 ^ 53) * 41"
    using assms(2) by (intro mult_right_mono) simp_all
  then have below: "?v \<le> 41 - 41 / 2 ^ 53"
    by (simp add: algebra_simps)
  then have v64: "?v < 64"
    by (simp add: less_le_trans [OF _ order_refl] le_less_trans [OF below])
  show ?thesis
  proof (cases "?v < 32")
    case True
    have "toDouble ?v \<le> real_of_int (32 * 2 ^ 47) / 2 ^ 47"
      using True by (intro toDouble_le_grid [OF nonneg v64]) simp
    then show ?thesis
      by simp
  next
    case False
    have sub: "subnormalBits + 5 = 5 + subnormalBits" "Suc (subnormalBits + 5) = 6 + subnormalBits"
      by simp_all
    have lo: "2 ^ (subnormalBits + 5) \<le> ?v * 2 ^ subnormalBits"
    proof -
      have "(2::real) ^ (subnormalBits + 5) = 32 * 2 ^ subnormalBits"
        by (simp add: power_add)
      also have "\<dots> \<le> ?v * 2 ^ subnormalBits"
        using False by (intro mult_right_mono) simp_all
      finally show ?thesis .
    qed
    have hi: "?v * 2 ^ subnormalBits < 2 ^ Suc (subnormalBits + 5)"
    proof -
      have "?v * 2 ^ subnormalBits < 64 * 2 ^ subnormalBits"
        using v64 by (intro mult_strict_right_mono) simp_all
      also have "\<dots> = (2::real) ^ Suc (subnormalBits + 5)"
        by (simp add: power_add)
      finally show ?thesis .
    qed
    have g: "gridBits ?v = 47"
      using gridBits_binade [OF lo hi] by (simp add: subnormalBits_def)
    have v53: "?v < 2 ^ 53"
      using v64 by simp
    have "?v * 2 ^ 47 \<le> (41 - 41 / 2 ^ 53) * 2 ^ 47"
      using below by (intro mult_right_mono) simp_all
    also have "\<dots> < real_of_int (41 * 2 ^ 47) - 1 / 2"
      by simp
    finally have "roundHalfEven (?v * 2 ^ 47) < 41 * 2 ^ 47"
      by (rule roundHalfEven_below_half)
    then have "real_of_int (roundHalfEven (?v * 2 ^ 47)) < real_of_int (41 * 2 ^ 47)"
      by (simp only: of_int_less_iff)
    then have "real_of_int (roundHalfEven (?v * 2 ^ 47)) / 2 ^ 47 < 41"
      by (simp add: pos_divide_less_eq)
    then show ?thesis
      by (simp only: toDouble_grid [OF nonneg v53] g)
  qed
qed


lemma startCol_40:
  assumes "totalCols cfg = 40"
  shows "startCol cfg r = real_of_int (\<lfloor>toDouble (r * 41)\<rfloor> - 20)"
  using assms by (simp add: startCol_def startColRange_def)

lemma floor_toDouble_product:
  assumes "0 \<le> r" and "0 \<le> j" and "j \<le> 40"
    and "real_of_int j \<le> r * 41" and "r * 41 \<le> real_of_int j + 1 - 1 / 2 ^ 47"
  shows "\<lfloor>toDouble (r * 41)\<rfloor> = j"
proof -
  let ?v = "r * 41"
  have nonneg: "0 \<le> ?v"
    using assms(1) by simp
  have "real_of_int j + 1 - 1 / 2 ^ 47 < 64"
    using assms(3) by simp
  with assms(5) have v64: "?v < 64"
    by simp
  have "real_of_int (j * 2 ^ 47) / 2 ^ 47 \<le> toDouble ?v"
    using assms(4) by (intro toDouble_ge_grid [OF nonneg v64]) simp
  then have lo: "real_of_int j \<le> toDouble ?v"
    by simp
  have "toDouble ?v \<le> real_of_int ((j + 1) * 2 ^ 47 - 1) / 2 ^ 47"
    using assms(5) by (intro toDouble_le_grid [OF nonneg v64]) (simp add: field_simps)
  also have "\<dots> < real_of_int j + 1"
    by (simp add: field_simps)
  finally have hi: "toDouble ?v < real_of_int j + 1" .
  from lo hi show ?thesis
    by (simp add: floor_eq_iff)
qed

lemma floor_toDouble_product_inv:
  assumes "0 \<le> r" and "r * 41 < 64" and "\<lfloor>toDouble (r * 41)\<rfloor> = j"
  shows "real_of_int j - 1 / 2 ^ 47 < r * 41" and "r * 41 < real_of_int j + 1"
proof -
  let ?v = "r * 41"
  have nonneg: "0 \<le> ?v"
    using assms(1) by simp
  from assms(3) have lo: "real_of_int j \<le> toDouble ?v" and hi: "toDouble ?v < real_of_int j + 1"
    by (simp_all add: floor_eq_iff)
  show "real_of_int j - 1 / 2 ^ 47 < ?v"
  proof (rule ccontr)
    assume "\<not> real_of_int j - 1 / 2 ^ 47 < ?v"
    then have "?v \<le> real_of_int (j * 2 ^ 47 - 1) / 2 ^ 47"
      by (simp add: field_simps)
    then have "toDouble ?v \<le> real_of_int (j * 2 ^ 47 - 1) / 2 ^ 47"
      by (rule toDouble_le_grid [OF nonneg assms(2)])
    also have "\<dots> < real_of_int j"
      by (simp add: field_simps)
    finally show False
      using lo by simp
  qed
  show "?v < real_of_int j + 1"
  proof (rule ccontr)
    assume "\<not> ?v < real_of_int j + 1"
    then have "real_of_int ((j + 1) * 2 ^ 47) / 2 ^ 47 \<le> ?v"
      by simp
    then have "real_of_int ((j + 1) * 2 ^ 47) / 2 ^ 47 \<le> toDouble ?v"
      by (rule toDouble_ge_grid [OF nonneg assms(2)])
    then show False
      using hi by simp
  qed
qed


lemma toDouble_nonneg:
  assumes "0 \<le> v" and "v < 64"
  shows "0 \<le> toDouble v"
proof -
  have "real_of_int 0 / 2 ^ 47 \<le> toDouble v"
    using assms(1) by (intro toDouble_ge_grid [OF assms]) simp
  then show ?thesis
    by simp
qed

lemma startCol_range:
  assumes "totalCols cfg = 40" and "isDouble r" and "0 \<le> r" and "r < 1"
  shows "- 20 \<le> \<lfloor>toDouble (r * 41)\<rfloor> - 20" and "\<lfloor>toDouble (r * 41)\<rfloor> - 20 \<le> 20"
proof -
  have "r * 41 < 1 * 41"
    using assms(4) by (intro mult_strict_right_mono) simp_all
  then have "0 \<le> toDouble (r * 41)"
    using assms(3) by (intro toDouble_nonneg) simp_all
  then have "0 \<le> \<lfloor>toDouble (r * 41)\<rfloor>"
    by simp
  then show "- 20 \<le> \<lfloor>toDouble (r * 41)\<rfloor> - 20"
    by simp
  have "toDouble (r * 41) < real_of_int 41"
    using toDouble_product_below [OF assms(3) isDouble_below_one [OF assms(2-4)]] by simp
  then have "\<lfloor>toDouble (r * 41)\<rfloor> < 41"
    by (simp only: floor_less_iff)
  then show "\<lfloor>toDouble (r * 41)\<rfloor> - 20 \<le> 20"
    by simp
qed

text \<open>A draw that gives column \<open>j - 20\<close>: the least multiple of \<open>1 / 128\<close> that is at least \<open>j / 41\<close>.\<close>

lemma startCol_onto:
  assumes "0 \<le> j" and "j \<le> 40"
  defines "c \<equiv> (128 * j + 40) div 41"
  shows "isDouble (real_of_int (c * 2 ^ 40) / 2 ^ 47)"
    and "0 \<le> real_of_int (c * 2 ^ 40) / 2 ^ 47" and "real_of_int (c * 2 ^ 40) / 2 ^ 47 < 1"
    and "\<lfloor>toDouble (real_of_int (c * 2 ^ 40) / 2 ^ 47 * 41)\<rfloor> = j"
proof -
  let ?r = "real_of_int (c * 2 ^ 40) / 2 ^ 47"
  have c: "0 \<le> c" "c \<le> 125" "128 * j \<le> 41 * c" "41 * c \<le> 128 * j + 40"
    using assms(1,2) unfolding c_def by linarith+
  have r: "?r = real_of_int c / 128"
    by simp
  show nonneg: "0 \<le> ?r"
    using c(1) by simp
  have "real_of_int c \<le> 125"
    using c(2) by simp
  then show less: "?r < 1"
    unfolding r by simp
  from less have "?r < 64"
    by simp
  moreover have "0 \<le> c * 2 ^ 40"
    using c(1) by simp
  ultimately show "isDouble ?r"
    unfolding isDouble_def by (intro toDouble_grid_point)
  have "real_of_int (128 * j) \<le> real_of_int (41 * c)"
    using c(3) by (simp only: of_int_le_iff)
  then have lo: "real_of_int j \<le> ?r * 41"
    unfolding r by simp
  have "real_of_int (41 * c) \<le> real_of_int (128 * j + 40)"
    using c(4) by (simp only: of_int_le_iff)
  then have "?r * 41 \<le> real_of_int j + 40 / 128"
    unfolding r by simp
  also have "\<dots> \<le> real_of_int j + 1 - 1 / 2 ^ 47"
    by simp
  finally show "\<lfloor>toDouble (?r * 41)\<rfloor> = j"
    by (intro floor_toDouble_product [OF nonneg assms(1,2) lo])
qed


lemma startCol_inner:
  assumes "0 \<le> r" and "0 \<le> j" and "j \<le> 40"
    and "real_of_int j / 41 \<le> r" and "r \<le> real_of_int (j + 1) / 41 - 1 / 2 ^ 52"
  shows "\<lfloor>toDouble (r * 41)\<rfloor> = j"
proof -
  from assms(4) have lo: "real_of_int j \<le> r * 41"
    by (simp add: field_simps)
  from assms(5) have "r * 41 \<le> (real_of_int (j + 1) / 41 - 1 / 2 ^ 52) * 41"
    by (intro mult_right_mono) simp_all
  also have "\<dots> = real_of_int j + 1 - 41 / 2 ^ 52"
    by (simp add: algebra_simps)
  also have "\<dots> \<le> real_of_int j + 1 - 1 / 2 ^ 47"
    by simp
  finally show ?thesis
    by (intro floor_toDouble_product [OF assms(1-3) lo])
qed

lemma startCol_outer:
  assumes "0 \<le> r" and "r < 1" and "\<lfloor>toDouble (r * 41)\<rfloor> = j"
  shows "real_of_int j / 41 - 1 / 2 ^ 52 < r" and "r < real_of_int (j + 1) / 41"
proof -
  have "r * 41 < 1 * 41"
    using assms(2) by (intro mult_strict_right_mono) simp_all
  then have v64: "r * 41 < 64"
    by simp
  note bounds = floor_toDouble_product_inv [OF assms(1) v64 assms(3)]
  have "(real_of_int j / 41 - 1 / 2 ^ 52) * 41 = real_of_int j - 41 / 2 ^ 52"
    by (simp add: algebra_simps)
  also have "\<dots> \<le> real_of_int j - 1 / 2 ^ 47"
    by simp
  also have "\<dots> < r * 41"
    by (rule bounds(1))
  finally show "real_of_int j / 41 - 1 / 2 ^ 52 < r"
    by simp
  from bounds(2) show "r < real_of_int (j + 1) / 41"
    by (simp add: field_simps)
qed

lemma gridBits_up:
  fixes v :: real
  assumes "2 ^ e \<le> v" and "v < 2 ^ Suc e" and "e \<le> 52"
  shows "gridBits v = 52 - e"
proof -
  have "2 ^ e * 2 ^ subnormalBits \<le> v * 2 ^ subnormalBits"
    using assms(1) by (intro mult_right_mono) simp_all
  then have lo: "2 ^ (subnormalBits + e) \<le> v * 2 ^ subnormalBits"
    by (simp add: power_add mult.commute)
  have "v * 2 ^ subnormalBits < 2 ^ Suc e * 2 ^ subnormalBits"
    using assms(2) by (intro mult_strict_right_mono) simp_all
  then have hi: "v * 2 ^ subnormalBits < 2 ^ Suc (subnormalBits + e)"
    by (simp add: power_add mult.commute)
  from gridBits_binade [OF lo hi] assms(3) show ?thesis
    by (simp add: subnormalBits_def)
qed

lemma gridBits_down:
  fixes v :: real
  assumes "1 / 2 ^ e \<le> v" and "v < 2 / 2 ^ e" and "e \<le> 1022"
  shows "gridBits v = 52 + e"
proof -
  from assms(3) have e: "e \<le> subnormalBits"
    by (simp add: subnormalBits_def)
  then have pow: "(2::real) ^ subnormalBits = 2 ^ (subnormalBits - e) * 2 ^ e"
    by (simp flip: power_add)
  have "1 / 2 ^ e * 2 ^ subnormalBits \<le> v * 2 ^ subnormalBits"
    using assms(1) by (intro mult_right_mono) simp_all
  then have lo: "2 ^ (subnormalBits - e) \<le> v * 2 ^ subnormalBits"
    by (simp add: pow)
  have "v * 2 ^ subnormalBits < 2 / 2 ^ e * 2 ^ subnormalBits"
    using assms(2) by (intro mult_strict_right_mono) simp_all
  then have hi: "v * 2 ^ subnormalBits < 2 ^ Suc (subnormalBits - e)"
    by (simp add: pow)
  from gridBits_binade [OF lo hi] assms(3) show ?thesis
    by (simp add: subnormalBits_def)
qed

text \<open>
  A draw just below a column boundary: \<open>r * 41\<close> is \<open>10 - 2 ^ -52\<close>, which rounds to the
  double 10, so the start is column \<open>-10\<close> although \<open>r < 10 / 41\<close>.
\<close>

lemma boundary_draw:
  "isDouble (1098438933504999 / 2 ^ 52)"
  "toDouble (1098438933504999 / 2 ^ 52 * 41) = 10"
  "startX_of GridCanvas (1098438933504999 / 2 ^ 52) = - 300"
proof -
  let ?r = "1098438933504999 / 2 ^ 52 :: real"
  have gr: "gridBits ?r = 52 + 3"
    by (rule gridBits_down) simp_all
  have "toDouble ?r = real_of_int (roundHalfEven (?r * 2 ^ gridBits ?r)) / 2 ^ gridBits ?r"
    by (rule toDouble_grid) simp_all
  also have "\<dots> = ?r"
    unfolding gr by (simp add: roundHalfEven_def)
  finally show "isDouble ?r"
    by (simp only: isDouble_def)
  have gv: "gridBits (?r * 41) = 52 - 3"
    by (rule gridBits_up) simp_all
  have "toDouble (?r * 41)
      = real_of_int (roundHalfEven (?r * 41 * 2 ^ gridBits (?r * 41))) / 2 ^ gridBits (?r * 41)"
    by (rule toDouble_grid) simp_all
  also have "\<dots> = 10"
    unfolding gv by (simp add: roundHalfEven_def)
  finally show v: "toDouble (?r * 41) = 10" .
  have "startCol GridCanvas ?r = real_of_int (\<lfloor>toDouble (?r * 41)\<rfloor> - 20)"
    by (rule startCol_40) (simp add: GridCanvas_def)
  then have "startCol GridCanvas ?r = - 10"
    unfolding v by simp
  then show "startX_of GridCanvas ?r = - 300"
    by (simp add: startX_of_def GridCanvas_def)
qed


text \<open>
  C7. With \<^verbatim>\<open>totalCols = 40\<close>, as in both components, every double \<open>r\<close> with \<open>0 \<le> r < 1\<close>
  that the random source returns gives a start \<open>k * stepSize\<close> for an integer \<open>k\<close> with
  \<open>-20 \<le> k \<le> 20\<close>, and every such \<open>k\<close> is produced by some double \<open>r\<close>. The values of \<open>r\<close>
  producing \<open>k\<close> are those between \<open>(k + 20) / 41\<close> and \<open>(k + 21) / 41\<close>, up to the rounding
  of the product within \<open>2 ^ -52\<close> of either end: 41 ranges of the same width. The first
  vertex of each simulated path has this start as its \<open>x\<close>.
\<close>

theorem startX_range:
  assumes "totalCols cfg = 40"
  shows "(\<forall>r. isDouble r \<and> 0 \<le> r \<and> r < 1 \<longrightarrow>
            (\<exists>k::int. - 20 \<le> k \<and> k \<le> 20 \<and> startCol cfg r = real_of_int k \<and>
               startX_of cfg r = real_of_int k * stepSize cfg)) \<and>
         (\<forall>k::int. - 20 \<le> k \<and> k \<le> 20 \<longrightarrow>
            (\<exists>r. isDouble r \<and> 0 \<le> r \<and> r < 1 \<and> startCol cfg r = real_of_int k \<and>
               startX_of cfg r = real_of_int k * stepSize cfg)) \<and>
         (\<forall>(k::int) r. - 20 \<le> k \<and> k \<le> 20 \<and> isDouble r \<and> 0 \<le> r \<and> r < 1 \<longrightarrow>
            (real_of_int (k + 20) / 41 \<le> r \<and> r \<le> real_of_int (k + 21) / 41 - 1 / 2 ^ 52 \<longrightarrow>
               startCol cfg r = real_of_int k) \<and>
            (startCol cfg r = real_of_int k \<longrightarrow>
               real_of_int (k + 20) / 41 - 1 / 2 ^ 52 < r \<and> r < real_of_int (k + 21) / 41)) \<and>
         (\<forall>b < numBalls cfg.
            x (hd (allPaths cfg rnd ! b)) = startX_of cfg (rnd (b * (numRows cfg + 1))))"
proof -
  note col = startCol_40 [OF assms]
  have range: "\<exists>k::int. - 20 \<le> k \<and> k \<le> 20 \<and> startCol cfg r = real_of_int k \<and>
      startX_of cfg r = real_of_int k * stepSize cfg"
    if "isDouble r" "0 \<le> r" "r < 1" for r
    using startCol_range [OF assms that]
    by (intro exI [of _ "\<lfloor>toDouble (r * 41)\<rfloor> - 20"]) (simp add: col startX_of_def)
  have onto: "\<exists>r. isDouble r \<and> 0 \<le> r \<and> r < 1 \<and> startCol cfg r = real_of_int k \<and>
      startX_of cfg r = real_of_int k * stepSize cfg"
    if "- 20 \<le> k" "k \<le> 20" for k :: int
  proof -
    from that have j: "0 \<le> k + 20" "k + 20 \<le> 40"
      by simp_all
    let ?r = "real_of_int ((128 * (k + 20) + 40) div 41 * 2 ^ 40) / 2 ^ 47"
    from startCol_onto [OF j]
    have "isDouble ?r" "0 \<le> ?r" "?r < 1" "\<lfloor>toDouble (?r * 41)\<rfloor> = k + 20"
      by blast+
    then show ?thesis
      by (intro exI [of _ ?r]) (simp add: col startX_of_def)
  qed
  have pre: "(real_of_int (k + 20) / 41 \<le> r \<and> r \<le> real_of_int (k + 21) / 41 - 1 / 2 ^ 52 \<longrightarrow>
        startCol cfg r = real_of_int k) \<and>
      (startCol cfg r = real_of_int k \<longrightarrow>
        real_of_int (k + 20) / 41 - 1 / 2 ^ 52 < r \<and> r < real_of_int (k + 21) / 41)"
    if "- 20 \<le> k" "k \<le> 20" "0 \<le> r" "r < 1" for k :: int and r
  proof -
    from that have j: "0 \<le> k + 20" "k + 20 \<le> 40"
      by simp_all
    have eq: "startCol cfg r = real_of_int k \<longleftrightarrow> \<lfloor>toDouble (r * 41)\<rfloor> = k + 20"
      unfolding col by (simp only: of_int_eq_iff) linarith
    have inner: "\<lfloor>toDouble (r * 41)\<rfloor> = k + 20"
      if "real_of_int (k + 20) / 41 \<le> r" "r \<le> real_of_int (k + 21) / 41 - 1 / 2 ^ 52"
      using that startCol_inner [OF \<open>0 \<le> r\<close> j, of] by (simp add: add.commute)
    have outer: "real_of_int (k + 20) / 41 - 1 / 2 ^ 52 < r \<and> r < real_of_int (k + 21) / 41"
      if "\<lfloor>toDouble (r * 41)\<rfloor> = k + 20"
      using startCol_outer [OF \<open>0 \<le> r\<close> \<open>r < 1\<close> that] by (simp add: add.commute)
    from inner outer show ?thesis
      unfolding eq by blast
  qed
  have starts: "x (hd (allPaths cfg rnd ! b)) = startX_of cfg (rnd (b * (numRows cfg + 1)))"
    if "b < numBalls cfg" for b
    using that
    by (simp add: allPaths_def hd_conv_nth simulateBall_nonempty simulateBall_origin)
  from range onto pre starts show ?thesis
    by blast
qed

theorem startX_range_witness:
  "totalCols GridCanvas = 40 \<and>
   isDouble (1 / 2) \<and> (0::real) \<le> 1 / 2 \<and> (1 / 2 :: real) < 1 \<and>
   - 20 \<le> (0::int) \<and> (0::int) \<le> 20 \<and>
   real_of_int (0 + 20) / 41 \<le> 1 / 2 \<and> 1 / 2 \<le> real_of_int (0 + 21) / 41 - 1 / 2 ^ 52 \<and>
   startCol GridCanvas (1 / 2) = real_of_int 0 \<and>
   isDouble (1098438933504999 / 2 ^ 52) \<and>
   (0::real) \<le> 1098438933504999 / 2 ^ 52 \<and> (1098438933504999 / 2 ^ 52 :: real) < 1 \<and>
   startX_of GridCanvas (1098438933504999 / 2 ^ 52) = - 300 \<and>
   (\<exists>k::int. - 20 \<le> k \<and> k \<le> 20 \<and>
      startCol GridCanvas (1098438933504999 / 2 ^ 52) = real_of_int k \<and>
      startX_of GridCanvas (1098438933504999 / 2 ^ 52) = real_of_int k * stepSize GridCanvas)"
proof -
  have h: "totalCols GridCanvas = 40"
    by (simp add: GridCanvas_def)
  have "toDouble (real_of_int (2 ^ 46) / 2 ^ 47) = real_of_int (2 ^ 46) / 2 ^ 47"
    by (rule toDouble_grid_point) simp_all
  then have d: "isDouble (1 / 2)"
    by (simp add: isDouble_def)
  have r: "(0::real) \<le> 1 / 2" "(1 / 2 :: real) < 1"
    by simp_all
  have k: "- 20 \<le> (0::int)" "(0::int) \<le> 20"
    by simp_all
  have i: "real_of_int (0 + 20) / 41 \<le> 1 / 2" "1 / 2 \<le> real_of_int (0 + 21) / 41 - 1 / 2 ^ 52"
    by simp_all
  have b: "(0::real) \<le> 1098438933504999 / 2 ^ 52" "(1098438933504999 / 2 ^ 52 :: real) < 1"
    by simp_all
  note inst = startX_range [OF h, of "constDraws 0"]
  from inst k d r i have c: "startCol GridCanvas (1 / 2) = real_of_int 0"
    by blast
  from inst boundary_draw(1) b
  have e: "\<exists>k::int. - 20 \<le> k \<and> k \<le> 20 \<and>
      startCol GridCanvas (1098438933504999 / 2 ^ 52) = real_of_int k \<and>
      startX_of GridCanvas (1098438933504999 / 2 ^ 52) = real_of_int k * stepSize GridCanvas"
    by blast
  from h d r k i c boundary_draw(1,3) b e show ?thesis
    by blast
qed

subsection \<open>Recentering and the handle\<close>

lemma length_allPaths: "length (allPaths cfg rnd) = numBalls cfg"
  by (simp add: allPaths_def)

lemma length_batch: "length (batch cfg rnd) = numBalls cfg"
  by (simp add: batch_def recenter_def length_allPaths)

lemma regenerate_timers:
  "timers (regenerate cfg rnd s) = timers s @ [(nextInterval s, \<lparr>index = 0, paths = batch cfg rnd\<rparr>)]"
  by (simp add: regenerate_def Let_def)

text \<open>
  C8. The recentering step keeps the number of paths, the length of each path and the order
  of the vertices; it maps each vertex by
  \<open>x \<mapsto> x - ((totalCols - visibleCols) / 2) * stepSize + canvasWidth / 2\<close> and leaves \<open>y\<close> and
  \<open>direction\<close> as they are. The batch \<^verbatim>\<open>regenerate\<close> hands to its timer is the recentered
  simulation.
\<close>

theorem recenter_frame:
  "length (recenter cfg all) = length all \<and>
   (\<forall>i < length all.
      length (recenter cfg all ! i) = length (all ! i) \<and>
      (\<forall>j < length (all ! i).
         x (recenter cfg all ! i ! j)
           = x (all ! i ! j) - ((totalCols cfg - visibleCols cfg) / 2) * stepSize cfg
               + canvasWidth cfg / 2 \<and>
         y (recenter cfg all ! i ! j) = y (all ! i ! j) \<and>
         direction (recenter cfg all ! i ! j) = direction (all ! i ! j))) \<and>
   paths (snd (last (timers (regenerate cfg rnd s))))
     = recenter cfg (allPaths cfg (\<lambda>k. rnd (3 + k)))"
  by (simp add: recenter_def centerOffset_def regenerate_timers batch_def)

theorem recenter_frame_witness:
  "(0::nat) < length [[\<lparr>x = 0, y = 0, direction = 0\<rparr>, \<lparr>x = 30, y = 30, direction = 1\<rparr>]] \<and>
   (1::nat) < length ([[\<lparr>x = 0, y = 0, direction = 0\<rparr>, \<lparr>x = 30, y = 30, direction = 1\<rparr>]] ! 0) \<and>
   recenter GridCanvas [[\<lparr>x = 0, y = 0, direction = 0\<rparr>, \<lparr>x = 30, y = 30, direction = 1\<rparr>]] ! 0 ! 1
     = \<lparr>x = 330, y = 30, direction = 1\<rparr>"
  using recenter_frame [of GridCanvas
    "[[\<lparr>x = 0, y = 0, direction = 0\<rparr>, \<lparr>x = 30, y = 30, direction = 1\<rparr>]]" "constDraws 0" init_GridCanvas]
  by (simp add: GridCanvas_def)

text \<open>
  C9. \<^verbatim>\<open>getVisibleCanvasWidth\<close> returns 0.4 times the configured raster width (360 for both
  components), whatever the component state, and a call through the handle leaves the
  state as it was.
\<close>

theorem getVisibleCanvasWidth_pure:
  "getVisibleCanvasWidth cfg = 0.4 * canvasWidth cfg \<and>
   handle cfg GetVisibleCanvasWidth s = (Some (0.4 * canvasWidth cfg), s) \<and>
   getVisibleCanvasWidth GridCanvas = 360 \<and>
   getVisibleCanvasWidth PachinkoCanvas = 360"
  by (simp add: getVisibleCanvasWidth_def GridCanvas_def PachinkoCanvas_def)

subsection \<open>Hexadecimal colors\<close>

lemma hexDigits_table:
  "\<forall>d \<in> set [0..<16].
     hexDigitValue (hexDigits ! d) = Some d \<and> \<not> isWhiteSpace (hexDigits ! d) \<and>
     hexDigits ! d \<noteq> CHR ''+'' \<and> hexDigits ! d \<noteq> CHR ''-'' \<and>
     hexDigits ! d \<noteq> CHR ''x'' \<and> hexDigits ! d \<noteq> CHR ''X''"
  by code_simp

lemma hexDigits_nth:
  assumes "d < 16"
  shows "hexDigitValue (hexDigits ! d) = Some d" and "\<not> isWhiteSpace (hexDigits ! d)"
    and "hexDigits ! d \<noteq> CHR ''+''" and "hexDigits ! d \<noteq> CHR ''-''"
    and "hexDigits ! d \<noteq> CHR ''x''" and "hexDigits ! d \<noteq> CHR ''X''"
  using assms hexDigits_table by simp_all

lemma hexDigits_zero: "hexDigits ! 0 = CHR ''0''"
  by (simp add: hexDigits_def)

lemma length_hexDigits: "length hexDigits = 16"
  by (simp add: hexDigits_def)

lemma in_hexDigits: "c \<in> set hexDigits \<Longrightarrow> \<exists>d < 16. c = hexDigits ! d"
  unfolding in_set_conv_nth length_hexDigits by auto

lemma and_255: "(k::int) AND 255 = k mod 256"
proof -
  have "k AND 255 = k AND mask 8"
    by (simp add: mask_eq_exp_minus_1)
  also have "\<dots> = take_bit 8 k"
    by (simp only: take_bit_eq_mask)
  also have "\<dots> = k mod 256"
    by (simp add: take_bit_eq_mod)
  finally show ?thesis .
qed

lemma toInt32_small: "0 \<le> v \<Longrightarrow> v < 2 ^ 24 \<Longrightarrow> toInt32 (Some v) = v"
  by (simp add: toInt32_def signed_take_bit_int_eq_self)


lemma parseInt16_digits:
  assumes "\<forall>c \<in> set ds. hexDigitValue c \<noteq> None" and "ds \<noteq> []"
    and "\<not> isWhiteSpace (hd ds)" and "hd ds \<noteq> CHR ''+''" and "hd ds \<noteq> CHR ''-''"
    and "length ds < 2 \<or> (ds ! 1 \<noteq> CHR ''x'' \<and> ds ! 1 \<noteq> CHR ''X'')"
  shows "parseInt16 ds = Some (int (foldl (\<lambda>acc c. 16 * acc + the (hexDigitValue c)) 0 ds))"
proof -
  obtain c cs where ds: "ds = c # cs"
    using assms(2) by (cases ds) auto
  have s1: "dropWhile isWhiteSpace ds = ds"
    using assms(3) ds by simp
  have pre: "take 2 ds \<noteq> ''0x''" "take 2 ds \<noteq> ''0X''"
    using assms(6) ds by (cases cs; auto)+
  have tw: "takeWhile (\<lambda>c. hexDigitValue c \<noteq> None) ds = ds"
    using assms(1) by (simp add: takeWhile_eq_all_conv)
  then have tw': "takeWhile (\<lambda>c. \<exists>v. hexDigitValue c = Some v) ds = ds"
    by simp
  show ?thesis
    using assms(2,4,5) pre
    by (simp add: parseInt16_def s1 Let_def tw')
qed

lemma hexToRgb_bytes:
  fixes a b c :: nat
  assumes "parseInt16 (drop 1 hex) = Some (int ((a * 256 + b) * 256 + c))"
    and "a < 256" and "b < 256" and "c < 256"
  shows "hexToRgb hex = (int a, int b, int c)"
proof -
  let ?v = "int ((a * 256 + b) * 256 + c)"
  have v: "0 \<le> ?v" "?v < 2 ^ 24"
    using assms(2-4) by simp_all
  have i32: "toInt32 (parseInt16 (drop 1 hex)) = ?v"
    unfolding assms(1) by (rule toInt32_small [OF v])
  have r: "drop_bit 16 ?v AND 255 = int a"
    using assms(2-4) by (simp add: and_255 drop_bit_eq_div) 
  have "?v div 256 = int a * 256 + int b"
    using assms(4) by simp
  then have g: "drop_bit 8 ?v AND 255 = int b"
    using assms(3) by (simp only: and_255 drop_bit_eq_div) simp
  have "?v = int c + 256 * (int a * 256 + int b)"
    by simp
  then have "?v mod 256 = int c mod 256"
    by (simp only: mod_mult_self2)
  then have "?v mod 256 = int c"
    using assms(4) by simp
  then have bl: "?v AND 255 = int c"
    by (simp only: and_255)
  show ?thesis
    by (simp only: hexToRgb_def i32 Let_def r g bl)
qed


lemma Math_round_int: "Math_round (real_of_int k) = k"
  unfolding Math_round_def by linarith

declare digits16.simps [simp del]

lemma toString16_nat: "toString16 (int n) = digits16 n"
  by (simp add: toString16_def)

lemma digits16_byte:
  assumes "a < 16" and "b < 16"
  shows "digits16 (a * 16 + b) = (if a = 0 then [hexDigits ! b] else [hexDigits ! a, hexDigits ! b])"
proof (cases "a = 0")
  case True
  with assms(2) show ?thesis
    by (subst digits16.simps) simp
next
  case False
  have "digits16 a = [hexDigits ! a]"
    using assms(1) by (subst digits16.simps) simp
  with False assms(2) show ?thesis
    by (subst digits16.simps) simp
qed

lemma byte_toString16:
  assumes "a < 16" and "b < 16"
  shows "padStart 2 (CHR ''0'') (toString16 (int (a * 16 + b))) = [hexDigits ! a, hexDigits ! b]"
  unfolding toString16_nat digits16_byte [OF assms]
  by (simp add: padStart_def hexDigits_zero)

lemma validColor_shape:
  assumes "validColor c"
  obtains d1 d2 d3 d4 d5 d6 where
    "d1 < 16" "d2 < 16" "d3 < 16" "d4 < 16" "d5 < 16" "d6 < 16"
    "c = CHR ''#'' # map ((!) hexDigits) [d1, d2, d3, d4, d5, d6]"
proof -
  from assms have len: "length c = 7" and h: "c ! 0 = CHR ''#''"
    and digs: "\<And>k. 1 \<le> k \<Longrightarrow> k < 7 \<Longrightarrow> c ! k \<in> set hexDigits"
    by (auto simp: validColor_def)
  obtain d1 where d1: "d1 < 16" "c ! 1 = hexDigits ! d1" using in_hexDigits [OF digs [of 1]] by auto
  obtain d2 where d2: "d2 < 16" "c ! 2 = hexDigits ! d2" using in_hexDigits [OF digs [of 2]] by auto
  obtain d3 where d3: "d3 < 16" "c ! 3 = hexDigits ! d3" using in_hexDigits [OF digs [of 3]] by auto
  obtain d4 where d4: "d4 < 16" "c ! 4 = hexDigits ! d4" using in_hexDigits [OF digs [of 4]] by auto
  obtain d5 where d5: "d5 < 16" "c ! 5 = hexDigits ! d5" using in_hexDigits [OF digs [of 5]] by auto
  obtain d6 where d6: "d6 < 16" "c ! 6 = hexDigits ! d6" using in_hexDigits [OF digs [of 6]] by auto
  have "c = [c ! 0, c ! 1, c ! 2, c ! 3, c ! 4, c ! 5, c ! 6]"
    using len by (auto simp: list_eq_iff_nth_eq nth_Cons' numeral_eq_Suc less_Suc_eq)
  then have "c = CHR ''#'' # map ((!) hexDigits) [d1, d2, d3, d4, d5, d6]"
    using h d1 d2 d3 d4 d5 d6 by simp
  with d1 d2 d3 d4 d5 d6 that show thesis
    by blast
qed


lemma hexToRgb_valid:
  assumes "d1 < 16" "d2 < 16" "d3 < 16" "d4 < 16" "d5 < 16" "d6 < 16"
  shows "hexToRgb (CHR ''#'' # map ((!) hexDigits) [d1, d2, d3, d4, d5, d6])
    = (int (d1 * 16 + d2), int (d3 * 16 + d4), int (d5 * 16 + d6))"
proof -
  let ?ds = "map ((!) hexDigits) [d1, d2, d3, d4, d5, d6]"
  have "parseInt16 ?ds = Some (int (foldl (\<lambda>acc c. 16 * acc + the (hexDigitValue c)) 0 ?ds))"
    using assms by (intro parseInt16_digits) (auto simp: hexDigits_nth)
  also have "foldl (\<lambda>acc c. 16 * acc + the (hexDigitValue c)) 0 ?ds
      = ((d1 * 16 + d2) * 256 + (d3 * 16 + d4)) * 256 + (d5 * 16 + d6)"
    using assms by (simp add: hexDigits_nth)
  finally have p: "parseInt16 (drop 1 (CHR ''#'' # ?ds))
      = Some (int (((d1 * 16 + d2) * 256 + (d3 * 16 + d4)) * 256 + (d5 * 16 + d6)))"
    by simp
  show ?thesis
    using assms by (intro hexToRgb_bytes [OF p]) simp_all
qed

lemma rgbToHex_valid:
  assumes "d1 < 16" "d2 < 16" "d3 < 16" "d4 < 16" "d5 < 16" "d6 < 16"
  shows "rgbToHex (real_of_int (int (d1 * 16 + d2))) (real_of_int (int (d3 * 16 + d4)))
           (real_of_int (int (d5 * 16 + d6)))
    = CHR ''#'' # map ((!) hexDigits) [d1, d2, d3, d4, d5, d6]"
  using assms
  by (simp only: rgbToHex_def list.map concat.simps Math_round_int byte_toString16) simp

lemma rgbToHex_hexToRgb:
  assumes "validColor c"
  shows "(case hexToRgb c of (r, g, b) \<Rightarrow> rgbToHex (real_of_int r) (real_of_int g) (real_of_int b)) = c"
proof -
  from assms obtain d1 d2 d3 d4 d5 d6 where
    d: "d1 < 16" "d2 < 16" "d3 < 16" "d4 < 16" "d5 < 16" "d6 < 16"
    and c: "c = CHR ''#'' # map ((!) hexDigits) [d1, d2, d3, d4, d5, d6]"
    by (rule validColor_shape)
  show ?thesis
    unfolding c hexToRgb_valid [OF d] prod.case rgbToHex_valid [OF d] ..
qed

lemma interpolateColor_one: "interpolateColor gradient 1 = Inl TypeError"
  by (simp add: interpolateColor_def jsIndex_def Let_def)

lemma interpolateColor_zero:
  assumes "2 \<le> length gradient"
  shows "interpolateColor gradient 0
    = Inr (case hexToRgb (gradient ! 0) of (r, g, b) \<Rightarrow>
             rgbToHex (real_of_int r) (real_of_int g) (real_of_int b))"
  using assms by (auto simp: interpolateColor_def jsIndex_def split: prod.splits)


lemma interpolateColor_index:
  assumes "2 \<le> length gradient" and "0 \<le> ratio" and "ratio < 1"
  shows "0 \<le> \<lfloor>ratio * real_of_int (int (length gradient) - 1)\<rfloor>"
    and "\<lfloor>ratio * real_of_int (int (length gradient) - 1)\<rfloor> + 1 < int (length gradient)"
proof -
  let ?n = "int (length gradient) - 1"
  have n: "0 < real_of_int ?n"
    using assms(1) by simp
  have "0 \<le> ratio * real_of_int ?n"
    using assms(2) n by simp
  then show "0 \<le> \<lfloor>ratio * real_of_int ?n\<rfloor>"
    by simp
  have "ratio * real_of_int ?n < 1 * real_of_int ?n"
    using assms(3) n by (rule mult_strict_right_mono)
  then have "\<lfloor>ratio * real_of_int ?n\<rfloor> < ?n"
    by (simp only: floor_less_iff mult_1)
  then show "\<lfloor>ratio * real_of_int ?n\<rfloor> + 1 < int (length gradient)"
    by simp
qed

lemma interpolateColor_defined:
  assumes "2 \<le> length gradient" and "0 \<le> ratio" and "ratio < 1"
  shows "\<exists>c. interpolateColor gradient ratio = Inr c"
  using interpolateColor_index [OF assms]
  by (simp add: interpolateColor_def jsIndex_def Let_def split: prod.splits)

lemma interpolateColor_throws:
  assumes "2 \<le> length gradient" and "ratio < 0 \<or> 1 \<le> ratio"
  shows "interpolateColor gradient ratio = Inl TypeError"
proof -
  let ?n = "int (length gradient) - 1"
  have n: "0 < real_of_int ?n"
    using assms(1) by simp
  from assms(2) show ?thesis
  proof
    assume "ratio < 0"
    then have "ratio * real_of_int ?n < 0"
      using n by (simp add: mult_less_0_iff)
    then have "\<lfloor>ratio * real_of_int ?n\<rfloor> < 0"
      by (simp only: floor_less_iff of_int_0)
    then show ?thesis
      by (simp add: interpolateColor_def jsIndex_def Let_def)
  next
    assume "1 \<le> ratio"
    then have "1 * real_of_int ?n \<le> ratio * real_of_int ?n"
      using n by (intro mult_right_mono) simp_all
    then have "?n \<le> \<lfloor>ratio * real_of_int ?n\<rfloor>"
      by (simp only: le_floor_iff mult_1)
    then have "jsIndex gradient (\<lfloor>ratio * real_of_int ?n\<rfloor> + 1) = None"
      by (simp add: jsIndex_def)
    then show ?thesis
      by (simp add: interpolateColor_def Let_def split: option.splits)
  qed
qed

text \<open>
  C2 (as amended). For a gradient of at least two valid control colors,
  \<^verbatim>\<open>interpolateColor(gradient, 0.0)\<close> is \<^verbatim>\<open>gradient[0]\<close>. At ratio 1.0 the function does not
  return the last control color: it reads \<^verbatim>\<open>gradient[gradient.length]\<close>, which is
  \<^verbatim>\<open>undefined\<close>, and throws.
\<close>

theorem interpolateColor_endpoints:
  assumes "2 \<le> length gradient" and "\<forall>c \<in> set gradient. validColor c"
  shows "interpolateColor gradient 0 = Inr (gradient ! 0) \<and>
         interpolateColor gradient 1 = Inl TypeError"
proof -
  have "gradient ! 0 \<in> set gradient"
    using assms(1) by (intro nth_mem) auto
  with assms(2) have "validColor (gradient ! 0)"
    by blast
  then show ?thesis
    using interpolateColor_zero [OF assms(1)]
    by (simp add: rgbToHex_hexToRgb interpolateColor_one)
qed

theorem interpolateColor_endpoints_witness:
  "2 \<le> length [''#00ffe5'', ''#ff00ff'', ''#ffff00'', ''#00ff00''] \<and>
   list_all validColor [''#00ffe5'', ''#ff00ff'', ''#ffff00'', ''#00ff00''] \<and>
   interpolateColor [''#00ffe5'', ''#ff00ff'', ''#ffff00'', ''#00ff00''] 0 = Inr ''#00ffe5'' \<and>
   interpolateColor [''#00ffe5'', ''#ff00ff'', ''#ffff00'', ''#00ff00''] 1 = Inl TypeError"
proof -
  have v: "list_all validColor [''#00ffe5'', ''#ff00ff'', ''#ffff00'', ''#00ff00'']"
    by code_simp
  then have "\<forall>c \<in> set [''#00ffe5'', ''#ff00ff'', ''#ffff00'', ''#00ff00'']. validColor c"
    by (simp only: list_all_iff)
  from interpolateColor_endpoints [OF _ this] v show ?thesis
    by simp
qed

text \<open>
  The claim C2 as stated fails: at ratio 1.0 the result is not the last control color, and
  a gradient of a single color makes the call throw at ratio 0.0.
\<close>

theorem interpolateColor_endpoints_counterexample:
  "validColor ''#000000'' \<and> validColor ''#ffffff'' \<and>
   interpolateColor [''#000000'', ''#ffffff''] 1 \<noteq> Inr (last [''#000000'', ''#ffffff'']) \<and>
   interpolateColor [''#000000''] 0 \<noteq> Inr ([''#000000''] ! 0)"
proof -
  have "validColor ''#000000''" "validColor ''#ffffff''"
    by code_simp+
  moreover have "interpolateColor [''#000000'', ''#ffffff''] 1 = Inl TypeError"
    by (rule interpolateColor_one)
  moreover have "interpolateColor [''#000000''] 0 = Inl TypeError"
    by (simp add: interpolateColor_def jsIndex_def)
  ultimately show ?thesis
    by simp
qed

text \<open>
  C3 (as amended). \<^verbatim>\<open>interpolateColor\<close> has no clamp: at ratio exactly 1.0 it looks up the
  index one past the last control color and throws. For a gradient of at least two control
  colors, the two indices looked up are within the gradient, and the call returns, exactly
  when \<open>0 \<le> ratio < 1\<close>.
\<close>

theorem interpolateColor_no_clamp:
  "interpolateColor gradient 1 = Inl TypeError \<and>
   (2 \<le> length gradient \<longrightarrow>
      ((\<exists>c. interpolateColor gradient ratio = Inr c) \<longleftrightarrow> 0 \<le> ratio \<and> ratio < 1) \<and>
      (0 \<le> ratio \<and> ratio < 1 \<longrightarrow>
         0 \<le> \<lfloor>ratio * real_of_int (int (length gradient) - 1)\<rfloor> \<and>
         \<lfloor>ratio * real_of_int (int (length gradient) - 1)\<rfloor> + 1 < int (length gradient)))"
proof -
  have "(\<exists>c. interpolateColor gradient ratio = Inr c) \<longleftrightarrow> 0 \<le> ratio \<and> ratio < 1"
    if len: "2 \<le> length gradient"
  proof
    assume "\<exists>c. interpolateColor gradient ratio = Inr c"
    then have "interpolateColor gradient ratio \<noteq> Inl TypeError"
      by auto
    with interpolateColor_throws [OF len, of ratio] show "0 \<le> ratio \<and> ratio < 1"
      by force
  next
    assume "0 \<le> ratio \<and> ratio < 1"
    with len show "\<exists>c. interpolateColor gradient ratio = Inr c"
      by (simp add: interpolateColor_defined)
  qed
  then show ?thesis
    using interpolateColor_index [of gradient ratio]
    by (simp add: interpolateColor_one)
qed

theorem interpolateColor_no_clamp_witness:
  "2 \<le> length [''#00ffe5'', ''#ff00ff'', ''#ffff00'', ''#00ff00''] \<and>
   (0::real) \<le> 79 / 80 \<and> (79 / 80 :: real) < 1 \<and>
   (\<exists>c. interpolateColor [''#00ffe5'', ''#ff00ff'', ''#ffff00'', ''#00ff00''] (79 / 80) = Inr c) \<and>
   \<lfloor>79 / 80 * real_of_int (int (length [''#00ffe5'', ''#ff00ff'', ''#ffff00'', ''#00ff00'']) - 1)\<rfloor> = 2 \<and>
   interpolateColor [''#00ffe5'', ''#ff00ff'', ''#ffff00'', ''#00ff00''] 1 = Inl TypeError"
  using interpolateColor_no_clamp [of "[''#00ffe5'', ''#ff00ff'', ''#ffff00'', ''#00ff00'']" "79 / 80"]
  by simp

text \<open>
  The claim C3 as stated fails: at ratio 1.0 the second index looked up is 4 in a gradient
  of four control colors, the lookup gives \<^verbatim>\<open>undefined\<close>, and the call throws.
\<close>

theorem interpolateColor_no_clamp_counterexample:
  "\<lfloor>1 * real_of_int (int (length [''#00ffe5'', ''#ff00ff'', ''#ffff00'', ''#00ff00'']) - 1)\<rfloor> + 1 = 4 \<and>
   jsIndex [''#00ffe5'', ''#ff00ff'', ''#ffff00'', ''#00ff00''] 4 = None \<and>
   interpolateColor [''#00ffe5'', ''#ff00ff'', ''#ffff00'', ''#00ff00''] 1 = Inl TypeError"
  by (simp add: interpolateColor_def jsIndex_def)

subsection \<open>The reveal timer\<close>











lemma ticks_add: "ticks (a + b) i s = ticks b i (ticks a i s)"
  by (induction b) simp_all

lemma ticks_idle: "timers s = [] \<Longrightarrow> ticks j i s = s"
  by (induction j) (simp_all add: tick_def)

lemma ticks_single:
  assumes "timers s = [(i, \<lparr>index = k, paths = ps\<rparr>)]" and "k + j \<le> length ps"
  shows "ticks j i s = s\<lparr>visiblePaths := visiblePaths s @ take j (drop k ps),
                          timers := [(i, \<lparr>index = k + j, paths = ps\<rparr>)]\<rparr>"
  using assms(2)
proof (induction j)
  case 0
  with assms(1) show ?case by simp
next
  case (Suc j)
  then have j: "j < length (drop k ps)" and IH: "ticks j i s =
      s\<lparr>visiblePaths := visiblePaths s @ take j (drop k ps),
        timers := [(i, \<lparr>index = k + j, paths = ps\<rparr>)]\<rparr>"
    by simp_all
  have "take (Suc j) (drop k ps) = take j (drop k ps) @ [ps ! (k + j)]"
    using j by (simp add: take_Suc_conv_app_nth)
  with Suc.prems show ?case
    by (simp add: IH tick_def)
qed

lemma tick_single_end:
  assumes "timers s = [(i, \<lparr>index = length ps, paths = ps\<rparr>)]"
  shows "tick i s = s\<lparr>timers := [], notifications := notifications s @ [AnimationEnd i]\<rparr>"
  using assms by (simp add: tick_def)

lemma reveal_running:
  assumes "timers s = []" and "k \<le> numBalls cfg"
  shows "reveal cfg rnd s k = (regenerate cfg rnd s)
           \<lparr>visiblePaths := take k (batch cfg rnd),
            timers := [(nextInterval s, \<lparr>index = k, paths = batch cfg rnd\<rparr>)]\<rparr>"
proof -
  have t: "timers (regenerate cfg rnd s) = [(nextInterval s, \<lparr>index = 0, paths = batch cfg rnd\<rparr>)]"
    using assms(1) by (simp add: regenerate_timers)
  have v: "visiblePaths (regenerate cfg rnd s) = []"
    by (simp add: regenerate_def Let_def)
  from assms(2) have "0 + k \<le> length (batch cfg rnd)"
    by (simp add: length_batch)
  from ticks_single [OF t this] v show ?thesis
    by (simp add: reveal_def)
qed

lemma reveal_done:
  assumes "timers s = []" and "numBalls cfg < k"
  shows "reveal cfg rnd s k = (regenerate cfg rnd s)
           \<lparr>visiblePaths := batch cfg rnd,
            timers := [],
            notifications := notifications s @ [AnimationStart, AnimationEnd (nextInterval s)]\<rparr>"
proof -
  let ?n = "numBalls cfg" and ?i = "nextInterval s"
  let ?end = "(regenerate cfg rnd s)\<lparr>visiblePaths := batch cfg rnd, timers := [],
      notifications := notifications s @ [AnimationStart, AnimationEnd ?i]\<rparr>"
  have full: "reveal cfg rnd s ?n = (regenerate cfg rnd s)
      \<lparr>visiblePaths := batch cfg rnd,
       timers := [(?i, \<lparr>index = length (batch cfg rnd), paths = batch cfg rnd\<rparr>)]\<rparr>"
    using reveal_running [OF assms(1) order_refl] by (simp add: length_batch)
  have "tick ?i (reveal cfg rnd s ?n) = ?end"
    unfolding full by (subst tick_single_end) (simp_all add: regenerate_def Let_def)
  then have stop: "ticks (Suc ?n) ?i (regenerate cfg rnd s) = ?end"
    by (simp add: reveal_def)
  from assms(2) obtain d where k: "k = Suc ?n + d"
    by (metis less_iff_Suc_add add_Suc)
  have "ticks d ?i ?end = ?end"
    by (rule ticks_idle) simp
  then show ?thesis
    unfolding reveal_def k ticks_add stop .
qed


lemma reveal_visible:
  assumes "timers s = []"
  shows "visiblePaths (reveal cfg rnd s k) = take k (batch cfg rnd)"
proof (cases "k \<le> numBalls cfg")
  case True
  then show ?thesis
    by (simp add: reveal_running [OF assms])
next
  case False
  then show ?thesis
    by (simp add: reveal_done [OF assms] length_batch)
qed

text \<open>
  C4 (as amended). Within one generation that starts when no earlier interval is live and
  during which \<^verbatim>\<open>regenerate\<close> is not called again, the revealed paths after \<open>k\<close> ticks are
  the first \<open>k\<close> paths of the batch: each of the first
  \<^verbatim>\<open>numBalls\<close> ticks appends the next path of the batch, the length never decreases, the
  interval stays live and silent through tick \<^verbatim>\<open>numBalls\<close>, and the tick after the last
  append clears it and sends the animation-end notification, with \<^verbatim>\<open>numBalls\<close> paths
  revealed.
\<close>

theorem reveal_prefix:
  assumes "timers s = []"
  shows "(\<forall>k. visiblePaths (reveal cfg rnd s k) = take k (batch cfg rnd)) \<and>
         (\<forall>k < numBalls cfg.
            visiblePaths (reveal cfg rnd s (Suc k))
              = visiblePaths (reveal cfg rnd s k) @ [batch cfg rnd ! k]) \<and>
         (\<forall>j k. j \<le> k \<longrightarrow>
            length (visiblePaths (reveal cfg rnd s j)) \<le> length (visiblePaths (reveal cfg rnd s k))) \<and>
         (\<forall>k \<le> numBalls cfg.
            timers (reveal cfg rnd s k) = [(nextInterval s, \<lparr>index = k, paths = batch cfg rnd\<rparr>)] \<and>
            notifications (reveal cfg rnd s k) = notifications s @ [AnimationStart]) \<and>
         (\<forall>k > numBalls cfg.
            timers (reveal cfg rnd s k) = [] \<and>
            notifications (reveal cfg rnd s k)
              = notifications s @ [AnimationStart, AnimationEnd (nextInterval s)] \<and>
            length (visiblePaths (reveal cfg rnd s k)) = numBalls cfg)"
proof -
  note vis = reveal_visible [OF assms]
  have step: "visiblePaths (reveal cfg rnd s (Suc k))
      = visiblePaths (reveal cfg rnd s k) @ [batch cfg rnd ! k]" if "k < numBalls cfg" for k
    using that by (simp add: vis take_Suc_conv_app_nth length_batch)
  have mono: "length (visiblePaths (reveal cfg rnd s j)) \<le> length (visiblePaths (reveal cfg rnd s k))"
    if "j \<le> k" for j k
    using that by (simp add: vis)
  have running: "timers (reveal cfg rnd s k) = [(nextInterval s, \<lparr>index = k, paths = batch cfg rnd\<rparr>)] \<and>
      notifications (reveal cfg rnd s k) = notifications s @ [AnimationStart]"
    if "k \<le> numBalls cfg" for k
    using that by (simp add: reveal_running [OF assms] regenerate_def Let_def)
  have finished: "timers (reveal cfg rnd s k) = [] \<and>
      notifications (reveal cfg rnd s k)
        = notifications s @ [AnimationStart, AnimationEnd (nextInterval s)] \<and>
      length (visiblePaths (reveal cfg rnd s k)) = numBalls cfg"
    if "numBalls cfg < k" for k
    using that by (simp add: reveal_done [OF assms] length_batch)
  from vis step mono running finished show ?thesis
    by blast
qed

theorem reveal_prefix_witness:
  "timers init_GridCanvas = [] \<and>
   (100::nat) \<le> numBalls GridCanvas \<and>
   length (visiblePaths (reveal GridCanvas (constDraws 0) init_GridCanvas 100)) = 100 \<and>
   map fst (timers (reveal GridCanvas (constDraws 0) init_GridCanvas 100)) = [0] \<and>
   notifications (reveal GridCanvas (constDraws 0) init_GridCanvas 100) = [AnimationStart] \<and>
   numBalls GridCanvas < (101::nat) \<and>
   length (visiblePaths (reveal GridCanvas (constDraws 0) init_GridCanvas 101)) = 100 \<and>
   timers (reveal GridCanvas (constDraws 0) init_GridCanvas 101) = [] \<and>
   notifications (reveal GridCanvas (constDraws 0) init_GridCanvas 101)
     = [AnimationStart, AnimationEnd 0]"
proof -
  have h: "timers init_GridCanvas = []"
    by (simp add: init_GridCanvas_def)
  have n: "numBalls GridCanvas = 100"
    by (simp add: GridCanvas_def)
  note inst = reveal_prefix [OF h, of GridCanvas "constDraws 0"]
  from inst have "visiblePaths (reveal GridCanvas (constDraws 0) init_GridCanvas 100)
      = take 100 (batch GridCanvas (constDraws 0))"
    by blast
  then have a: "length (visiblePaths (reveal GridCanvas (constDraws 0) init_GridCanvas 100)) = 100"
    by (simp add: length_batch n)
  from inst n have "timers (reveal GridCanvas (constDraws 0) init_GridCanvas 100)
      = [(nextInterval init_GridCanvas, \<lparr>index = 100, paths = batch GridCanvas (constDraws 0)\<rparr>)] \<and>
     notifications (reveal GridCanvas (constDraws 0) init_GridCanvas 100)
      = notifications init_GridCanvas @ [AnimationStart]"
    by (metis order_refl)
  then have b: "map fst (timers (reveal GridCanvas (constDraws 0) init_GridCanvas 100)) = [0] \<and>
     notifications (reveal GridCanvas (constDraws 0) init_GridCanvas 100) = [AnimationStart]"
    by (simp add: init_GridCanvas_def)
  have "numBalls GridCanvas < 101"
    by (simp add: n)
  with inst have "timers (reveal GridCanvas (constDraws 0) init_GridCanvas 101) = [] \<and>
      notifications (reveal GridCanvas (constDraws 0) init_GridCanvas 101)
        = notifications init_GridCanvas @ [AnimationStart, AnimationEnd (nextInterval init_GridCanvas)] \<and>
      length (visiblePaths (reveal GridCanvas (constDraws 0) init_GridCanvas 101)) = numBalls GridCanvas"
    by blast
  then have c: "timers (reveal GridCanvas (constDraws 0) init_GridCanvas 101) = [] \<and>
      notifications (reveal GridCanvas (constDraws 0) init_GridCanvas 101)
        = [AnimationStart, AnimationEnd 0] \<and>
      length (visiblePaths (reveal GridCanvas (constDraws 0) init_GridCanvas 101)) = 100"
    by (simp add: init_GridCanvas_def n)
  from h n a b c show ?thesis
    by simp
qed


subsection \<open>A second \<^verbatim>\<open>regenerate\<close> during the reveal\<close>


lemma restart_state:
  assumes "timers s = []" and "j \<le> numBalls cfg"
  shows "timers (restart cfg rnd1 rnd2 s j)
           = [(nextInterval s, \<lparr>index = j, paths = batch cfg rnd1\<rparr>),
              (Suc (nextInterval s), \<lparr>index = 0, paths = batch cfg rnd2\<rparr>)]"
    and "visiblePaths (restart cfg rnd1 rnd2 s j) = []"
    and "notifications (restart cfg rnd1 rnd2 s j) = notifications s @ [AnimationStart, AnimationStart]"
  unfolding restart_def reveal_running [OF assms]
  by (simp_all add: regenerate_def Let_def)








subsection \<open>A reveal disturbed by a second \<^verbatim>\<open>regenerate\<close>\<close>

lemma simulateBall_second:
  assumes "1 \<le> numRows cfg"
  shows "direction (simulateBall cfg rnd startX ! Suc 0) = (if rnd 0 < 0.5 then - 1 else 1)"
proof -
  define d :: real where "d = (if rnd 0 < 0.5 then - 1 else 1)"
  define q where "q = \<lparr>x = startX + d * stepSize cfg, y = stepSize cfg, direction = d\<rparr>"
  have "simulateBall cfg rnd startX
      = simulateBall_loop cfg rnd (Suc (Suc 0)) [\<lparr>x = startX, y = 0, direction = 0\<rparr>, q]"
    unfolding simulateBall_def using assms
    by (subst simulateBall_loop.simps) (simp add: Let_def q_def d_def)
  then have "simulateBall cfg rnd startX ! Suc 0 = [\<lparr>x = startX, y = 0, direction = 0\<rparr>, q] ! Suc 0"
    by (simp add: simulateBall_loop_keeps)
  then show ?thesis
    by (simp add: q_def d_def)
qed

lemma batch_second:
  assumes "b < numBalls cfg" and "1 \<le> numRows cfg"
  shows "direction (batch cfg (constDraws c) ! b ! Suc 0) = (if c < 0.5 then - 1 else 1)"
  using assms
  by (simp add: batch_def recenter_def allPaths_def simulateBall_length simulateBall_second
      constDraws_def)

text \<open>
  The claim C4 as stated fails once \<^verbatim>\<open>regenerate\<close> is called during a reveal: in
  \<^verbatim>\<open>GridCanvas\<close>, a second call after two ticks takes RevealState from two paths to none
  while the first interval is still live, and after one firing of each interval RevealState
  holds a path of the abandoned batch followed by a path of the new one, which is a prefix
  of neither batch.
\<close>

theorem reveal_prefix_counterexample:
  "length (visiblePaths (reveal GridCanvas (constDraws 0) init_GridCanvas 2)) = 2 \<and>
   length (visiblePaths (restart GridCanvas (constDraws 0) (constDraws (1 / 2)) init_GridCanvas 2)) = 0 \<and>
   map fst (timers (restart GridCanvas (constDraws 0) (constDraws (1 / 2)) init_GridCanvas 2)) = [0, 1] \<and>
   visiblePaths (tick 1 (tick 0
       (restart GridCanvas (constDraws 0) (constDraws (1 / 2)) init_GridCanvas 2)))
     = [batch GridCanvas (constDraws 0) ! 2, batch GridCanvas (constDraws (1 / 2)) ! 0] \<and>
   visiblePaths (tick 1 (tick 0
       (restart GridCanvas (constDraws 0) (constDraws (1 / 2)) init_GridCanvas 2)))
     \<noteq> take 2 (batch GridCanvas (constDraws (1 / 2))) \<and>
   visiblePaths (tick 1 (tick 0
       (restart GridCanvas (constDraws 0) (constDraws (1 / 2)) init_GridCanvas 2)))
     \<noteq> take 2 (batch GridCanvas (constDraws 0))"
proof -
  let ?old = "batch GridCanvas (constDraws 0)" and ?new = "batch GridCanvas (constDraws (1 / 2))"
  let ?s = "restart GridCanvas (constDraws 0) (constDraws (1 / 2)) init_GridCanvas 2"
  have h: "timers init_GridCanvas = []" and i: "nextInterval init_GridCanvas = 0"
    by (simp_all add: init_GridCanvas_def)
  have n: "numBalls GridCanvas = 100" and rows: "numRows GridCanvas = 40"
    by (simp_all add: GridCanvas_def)
  have j: "(2::nat) \<le> numBalls GridCanvas"
    by (simp add: n)
  have before: "length (visiblePaths (reveal GridCanvas (constDraws 0) init_GridCanvas 2)) = 2"
    by (simp add: reveal_visible [OF h] length_batch n)
  have ts: "timers ?s = [(0, \<lparr>index = 2, paths = ?old\<rparr>), (1, \<lparr>index = 0, paths = ?new\<rparr>)]"
    using restart_state(1) [OF h j, of "constDraws 0" "constDraws (1 / 2)"] by (simp add: i)
  have vs: "visiblePaths ?s = []"
    by (rule restart_state(2) [OF h j])
  have t0: "tick 0 ?s = ?s\<lparr>visiblePaths := [?old ! 2],
      timers := [(0, \<lparr>index = 3, paths = ?old\<rparr>), (1, \<lparr>index = 0, paths = ?new\<rparr>)]\<rparr>"
    by (simp add: tick_def ts vs length_batch n)
  have vis: "visiblePaths (tick 1 (tick 0 ?s)) = [?old ! 2, ?new ! 0]"
    unfolding t0 by (simp add: tick_def length_batch n)
  have d_old: "direction (?old ! b ! Suc 0) = - 1" if "b < 100" for b
    using that by (simp add: batch_second n rows)
  have d_new: "direction (?new ! 0 ! Suc 0) = 1"
    by (simp add: batch_second n rows)
  have "?new ! 0 \<noteq> ?old ! 1"
    using d_old [of 1] d_new by auto
  then have not_old: "[?old ! 2, ?new ! 0] \<noteq> take 2 ?old"
    by (simp add: take_Suc_conv_app_nth length_batch n numeral_2_eq_2)
  have "?old ! 2 \<noteq> ?new ! 0"
    using d_old [of 2] d_new by auto
  then have not_new: "[?old ! 2, ?new ! 0] \<noteq> take 2 ?new"
    by (simp add: take_Suc_conv_app_nth length_batch n numeral_2_eq_2)
  from before vs ts vis not_old not_new show ?thesis
    by simp
qed

subsection \<open>The ratios the renderer computes\<close>

lemma simulateBall_y:
  assumes "i \<le> numRows cfg"
  shows "y (simulateBall cfg rnd startX ! i) = real i * stepSize cfg"
proof -
  have "y (simulateBall cfg rnd startX ! i)
      = y (simulateBall cfg rnd startX ! 0) + real i * stepSize cfg"
    using assms by (intro chain_y [OF simulateBall_chain]) (simp add: simulateBall_length)
  then show ?thesis
    by (simp add: simulateBall_origin)
qed

lemma batch_path_shape:
  assumes "path \<in> set (batch cfg rnd)"
  shows "length path = numRows cfg + 1"
    and "i \<le> numRows cfg \<Longrightarrow> y (path ! i) = real i * stepSize cfg"
proof -
  from assms obtain rnd' startX where
    path: "path = map (\<lambda>p. \<lparr>x = x p - centerOffset cfg + canvasWidth cfg / 2,
                              y = y p, direction = direction p\<rparr>) (simulateBall cfg rnd' startX)"
    by (auto simp: batch_def recenter_def allPaths_def)
  show "length path = numRows cfg + 1"
    by (simp add: path simulateBall_length)
  show "y (path ! i) = real i * stepSize cfg" if "i \<le> numRows cfg"
    using that by (simp add: path simulateBall_length simulateBall_y)
qed

lemma baseRatio_batch:
  assumes "cfg = GridCanvas \<or> cfg = PachinkoCanvas"
    and "path \<in> set (batch cfg rnd)" and "Suc i < length path"
  shows "baseRatio cfg (path ! i) (path ! Suc i) = (2 * real i + 1) / 80" and "i < 40"
proof -
  from assms(1) have c: "numRows cfg = 40" "stepSize cfg = 30" "canvasHeight cfg = 1200"
    by (auto simp: GridCanvas_def PachinkoCanvas_def)
  from assms(3) show i: "i < 40"
    by (simp add: batch_path_shape(1) [OF assms(2)] c)
  then have "y (path ! i) = real i * 30" and "y (path ! Suc i) = real (Suc i) * 30"
    using batch_path_shape(2) [OF assms(2), of i] batch_path_shape(2) [OF assms(2), of "Suc i"]
    by (simp_all add: c)
  then show "baseRatio cfg (path ! i) (path ! Suc i) = (2 * real i + 1) / 80"
    by (simp add: baseRatio_def c)
qed

lemma gradients_length: "(name, gradient) \<in> set gradients \<Longrightarrow> length gradient = 4"
  by (auto simp: gradients_def)

lemma collect_Inr:
  "(\<And>r. r \<in> set rs \<Longrightarrow> \<exists>xs. r = Inr xs) \<Longrightarrow> \<exists>ys. collect rs = Inr ys"
proof (induction rs rule: collect.induct)
  case 1
  show ?case by simp
next
  case (2 e rs)
  from "2.prems" [of "Inl e"] show ?case by simp
next
  case (3 xs rs)
  then have "\<exists>ys. collect rs = Inr ys"
    by simp
  then show ?case
    by auto
qed

lemma drawSegment_Inr:
  assumes "\<exists>c. interpolateColor gradient (baseRatio cfg p1 p2) = Inr c"
  shows "\<exists>ds. drawSegment cfg (Some gradient) (Some tn) p1 p2 = Inr ds"
  using assms by (cases tn) (auto simp: drawSegment_def Let_def)


lemma batch_segment_ok:
  assumes "cfg = GridCanvas \<or> cfg = PachinkoCanvas"
    and "path \<in> set (batch cfg rnd)" and "Suc i < length path"
    and "(name, gradient) \<in> set gradients"
  shows "1 / 80 \<le> baseRatio cfg (path ! i) (path ! Suc i)"
    and "baseRatio cfg (path ! i) (path ! Suc i) \<le> 79 / 80"
    and "0 \<le> \<lfloor>baseRatio cfg (path ! i) (path ! Suc i) * real_of_int (int (length gradient) - 1)\<rfloor>"
    and "\<lfloor>baseRatio cfg (path ! i) (path ! Suc i) * real_of_int (int (length gradient) - 1)\<rfloor> + 1
           < int (length gradient)"
    and "\<exists>c. interpolateColor gradient (baseRatio cfg (path ! i) (path ! Suc i)) = Inr c"
proof -
  let ?r = "baseRatio cfg (path ! i) (path ! Suc i)"
  note r = baseRatio_batch [OF assms(1-3)]
  show lo: "1 / 80 \<le> ?r"
    by (simp add: r(1))
  from r(2) have "real i \<le> 39"
    by simp
  then show hi: "?r \<le> 79 / 80"
    by (simp add: r(1))
  have len: "2 \<le> length gradient"
    by (simp add: gradients_length [OF assms(4)])
  from lo hi have unit: "0 \<le> ?r" "?r < 1"
    by simp_all
  show "0 \<le> \<lfloor>?r * real_of_int (int (length gradient) - 1)\<rfloor>"
    by (rule interpolateColor_index(1) [OF len unit])
  show "\<lfloor>?r * real_of_int (int (length gradient) - 1)\<rfloor> + 1 < int (length gradient)"
    by (rule interpolateColor_index(2) [OF len unit])
  show "\<exists>c. interpolateColor gradient ?r = Inr c"
    by (rule interpolateColor_defined [OF len unit])
qed

lemma drawPath_batch:
  assumes "cfg = GridCanvas \<or> cfg = PachinkoCanvas"
    and "path \<in> set (batch cfg rnd)" and "(name, gradient) \<in> set gradients"
  shows "\<exists>ds. drawPath cfg (Some gradient) (Some tn) path = Inr ds"
  unfolding drawPath_def
proof (rule collect_Inr)
  fix r
  assume "r \<in> set (map (\<lambda>i. drawSegment cfg (Some gradient) (Some tn) (path ! i) (path ! (i + 1)))
                     [0..<length path - 1])"
  then obtain i where i: "Suc i < length path"
    and r: "r = drawSegment cfg (Some gradient) (Some tn) (path ! i) (path ! Suc i)"
    by (auto simp: less_diff_conv)
  show "\<exists>xs. r = Inr xs"
    unfolding r
    by (rule drawSegment_Inr) (rule batch_segment_ok(5) [OF assms(1,2) i assms(3)])
qed

text \<open>
  C10. With the constants of either component, every segment of every path of a generated
  batch has its ratio \<^verbatim>\<open>avgY / canvasHeight\<close> between 1/80 and 79/80, so for each of the
  three gradients the two indices \<^verbatim>\<open>interpolateColor\<close> looks up are within the gradient and
  the call returns; drawing a whole path of the batch never throws.
\<close>

theorem render_ratio_in_range:
  assumes "cfg = GridCanvas \<or> cfg = PachinkoCanvas"
    and "path \<in> set (batch cfg rnd)" and "Suc i < length path"
    and "(name, gradient) \<in> set gradients"
  shows "1 / 80 \<le> baseRatio cfg (path ! i) (path ! Suc i) \<and>
         baseRatio cfg (path ! i) (path ! Suc i) \<le> 79 / 80 \<and>
         0 \<le> \<lfloor>baseRatio cfg (path ! i) (path ! Suc i) * real_of_int (int (length gradient) - 1)\<rfloor> \<and>
         \<lfloor>baseRatio cfg (path ! i) (path ! Suc i) * real_of_int (int (length gradient) - 1)\<rfloor> + 1
            < int (length gradient) \<and>
         (\<exists>c. interpolateColor gradient (baseRatio cfg (path ! i) (path ! Suc i)) = Inr c) \<and>
         (\<exists>ds. drawPath cfg (Some gradient) (Some tn) path = Inr ds)"
  using batch_segment_ok [OF assms] drawPath_batch [OF assms(1,2,4)]
  by blast

theorem render_ratio_in_range_witness:
  "(GridCanvas = GridCanvas \<or> GridCanvas = PachinkoCanvas) \<and>
   batch GridCanvas (constDraws 0) ! 0 \<in> set (batch GridCanvas (constDraws 0)) \<and>
   Suc 39 < length (batch GridCanvas (constDraws 0) ! 0) \<and>
   (''neon'', [''#00ffe5'', ''#ff00ff'', ''#ffff00'', ''#00ff00'']) \<in> set gradients \<and>
   baseRatio GridCanvas (batch GridCanvas (constDraws 0) ! 0 ! 39)
     (batch GridCanvas (constDraws 0) ! 0 ! Suc 39) \<le> 79 / 80 \<and>
   (\<exists>c. interpolateColor [''#00ffe5'', ''#ff00ff'', ''#ffff00'', ''#00ff00'']
      (baseRatio GridCanvas (batch GridCanvas (constDraws 0) ! 0 ! 39)
         (batch GridCanvas (constDraws 0) ! 0 ! Suc 39)) = Inr c)"
proof -
  have c: "GridCanvas = GridCanvas \<or> GridCanvas = PachinkoCanvas"
    by simp
  have p: "batch GridCanvas (constDraws 0) ! 0 \<in> set (batch GridCanvas (constDraws 0))"
    by (intro nth_mem) (simp add: length_batch GridCanvas_def)
  have "numRows GridCanvas = 40"
    by (simp add: GridCanvas_def)
  then have i: "Suc 39 < length (batch GridCanvas (constDraws 0) ! 0)"
    by (simp add: batch_path_shape(1) [OF p])
  have g: "(''neon'', [''#00ffe5'', ''#ff00ff'', ''#ffff00'', ''#00ff00'']) \<in> set gradients"
    by (simp add: gradients_def)
  from render_ratio_in_range [OF c p i g] c p i g show ?thesis
    by blast
qed

subsection \<open>Rendering never throws on a reachable state\<close>

lemma toDouble_triple_below:
  assumes "0 \<le> r" and "r \<le> 1 - 1 / 2 ^ 53"
  shows "toDouble (r * 3) < 3"
proof -
  let ?v = "r * 3"
  have nonneg: "0 \<le> ?v"
    using assms(1) by simp
  have "?v \<le> (1 - 1 / 2 ^ 53) * 3"
    using assms(2) by (intro mult_right_mono) simp_all
  then have below: "?v \<le> 3 - 3 / 2 ^ 53"
    by (simp add: algebra_simps)
  then have v4: "?v < 2 ^ Suc 1"
    by simp
  then have v64: "?v < 64" and v53: "?v < 2 ^ 53"
    by simp_all
  show ?thesis
  proof (cases "?v < 2")
    case True
    have "toDouble ?v \<le> real_of_int (2 * 2 ^ 47) / 2 ^ 47"
      using True by (intro toDouble_le_grid [OF nonneg v64]) simp
    then show ?thesis
      by simp
  next
    case False
    then have "2 ^ 1 \<le> ?v"
      by simp
    then have g: "gridBits ?v = 52 - 1"
      using v4 by (rule gridBits_up) simp
    have "?v * 2 ^ 51 \<le> (3 - 3 / 2 ^ 53) * 2 ^ 51"
      using below by (intro mult_right_mono) simp_all
    also have "\<dots> < real_of_int (3 * 2 ^ 51) - 1 / 2"
      by simp
    finally have "roundHalfEven (?v * 2 ^ 51) < 3 * 2 ^ 51"
      by (rule roundHalfEven_below_half)
    then have "real_of_int (roundHalfEven (?v * 2 ^ 51)) < real_of_int (3 * 2 ^ 51)"
      by (simp only: of_int_less_iff)
    then have "real_of_int (roundHalfEven (?v * 2 ^ 51)) / 2 ^ 51 < 3"
      by (simp add: pos_divide_less_eq)
    then show ?thesis
      using toDouble_grid [OF nonneg v53] by (simp add: g)
  qed
qed

text \<open>A pick among three options, as for the gradients and the tints, is one of them.\<close>

lemma pick_unit:
  assumes "isDouble r" and "0 \<le> r" and "r < 1" and "length xs = 3"
  shows "\<exists>v. pick xs r = Some v \<and> v \<in> set xs"
proof -
  define k where "k = \<lfloor>toDouble (r * 3)\<rfloor>"
  have "r * 3 < 64"
    using assms(3) by simp
  then have "0 \<le> toDouble (r * 3)"
    using assms(2) by (intro toDouble_nonneg) simp_all
  then have lo: "0 \<le> k"
    by (simp add: k_def)
  have "toDouble (r * 3) < real_of_int 3"
    using toDouble_triple_below [OF assms(2) isDouble_below_one [OF assms(1-3)]] by simp
  then have hi: "k < 3"
    unfolding k_def by (simp only: floor_less_iff)
  from lo hi have "nat k < length xs"
    by (simp add: assms(4))
  then have "xs ! nat k \<in> set xs"
    by (rule nth_mem)
  with lo hi have "jsIndex xs k = Some (xs ! nat k) \<and> xs ! nat k \<in> set xs"
    by (simp add: jsIndex_def assms(4))
  then show ?thesis
    by (simp add: pick_def k_def assms(4))
qed

lemma regenerate_scheme:
  assumes "unitDraws rnd"
  shows "\<exists>name g. selectedGradient (regenerate cfg rnd s) = Some g \<and> (name, g) \<in> set gradients"
    and "tints (regenerate cfg rnd s) \<noteq> None"
proof -
  from assms have r0: "isDouble (rnd 0)" "0 \<le> rnd 0" "rnd 0 < 1"
    and r1: "isDouble (rnd 1)" "0 \<le> rnd 1" "rnd 1 < 1"
    by (simp_all add: unitDraws_def)
  have "length (map fst gradients) = 3"
    by (simp add: gradients_def)
  from pick_unit [OF r0 this]
  obtain k where k: "pick (map fst gradients) (rnd 0) = Some k" "k \<in> fst ` set gradients"
    by auto
  from k(2) obtain g where g: "map_of gradients k = Some g"
    by (metis map_of_eq_None_iff not_Some_eq)
  then have "(k, g) \<in> set gradients"
    by (rule map_of_SomeD)
  with k(1) g show "\<exists>name g. selectedGradient (regenerate cfg rnd s) = Some g \<and> (name, g) \<in> set gradients"
    by (auto simp: regenerate_def Let_def)
  have "length tintOptions = 3"
    by (simp add: tintOptions_def)
  from pick_unit [OF r1 this] show "tints (regenerate cfg rnd s) \<noteq> None"
    by (auto simp: regenerate_def Let_def)
qed

lemma renderable_regenerate:
  assumes "renderable cfg s" and "unitDraws rnd"
  shows "renderable cfg (regenerate cfg rnd s)"
proof -
  have "\<forall>(i, t) \<in> set (timers (regenerate cfg rnd s)). \<exists>rnd. paths t = batch cfg rnd"
    using assms(1) by (auto simp: renderable_def regenerate_timers)
  moreover have "visiblePaths (regenerate cfg rnd s) = []"
    by (simp add: regenerate_def Let_def)
  ultimately show ?thesis
    using regenerate_scheme [OF assms(2), of cfg s]
    by (simp add: renderable_def)
qed

lemma renderable_tick:
  assumes "renderable cfg s"
  shows "renderable cfg (tick i s)"
proof (cases "map_of (timers s) i")
  case None
  with assms show ?thesis
    by (simp add: tick_def)
next
  case (Some t)
  then have mem: "(i, t) \<in> set (timers s)"
    by (rule map_of_SomeD)
  with assms obtain rnd where rnd: "paths t = batch cfg rnd"
    by (auto simp: renderable_def)
  from mem assms have scheme: "(\<exists>name g. selectedGradient s = Some g \<and> (name, g) \<in> set gradients) \<and>
      tints s \<noteq> None"
    by (auto simp: renderable_def)
  show ?thesis
  proof (cases "index t < length (paths t)")
    case True
    then have "paths t ! index t \<in> set (batch cfg rnd)"
      unfolding rnd [symmetric] by (rule nth_mem)
    then have new: "\<exists>rnd. paths t ! index t \<in> set (batch cfg rnd)"
      by blast
    have "tick i s = s\<lparr>visiblePaths := visiblePaths s @ [paths t ! index t],
        timers := map (\<lambda>(j, u). if j = i then (j, u\<lparr>index := index u + 1\<rparr>) else (j, u)) (timers s)\<rparr>"
      using Some True by (simp add: tick_def)
    with assms new scheme show ?thesis
      by (fastforce simp: renderable_def split: if_splits)
  next
    case False
    with Some have "tick i s = s\<lparr>timers := filter (\<lambda>(j, u). j \<noteq> i) (timers s),
        notifications := notifications s @ [AnimationEnd i]\<rparr>"
      by (simp add: tick_def)
    with assms scheme show ?thesis
      by (auto simp: renderable_def)
  qed
qed

lemma reachable_renderable:
  assumes "reachable cfg s0 s" and "visiblePaths s0 = []" and "timers s0 = []"
  shows "renderable cfg s"
  using assms
proof (induction rule: reachable.induct)
  case start
  then show ?case
    by (simp add: renderable_def)
next
  case (regenerated s rnd)
  then show ?case
    by (simp add: renderable_regenerate)
next
  case (ticked s i)
  then show ?case
    by (simp add: renderable_tick)
qed

lemma render_renderable:
  assumes "cfg = GridCanvas \<or> cfg = PachinkoCanvas" and "renderable cfg s"
  shows "\<exists>ds. render cfg s = Inr ds"
proof (cases "visiblePaths s = []")
  case True
  then show ?thesis
    by (simp add: render_def)
next
  case False
  with assms(2) obtain name g tn where
    scheme: "selectedGradient s = Some g" "(name, g) \<in> set gradients" "tints s = Some tn"
    by (auto simp: renderable_def)
  show ?thesis
    unfolding render_def scheme(1,3)
  proof (rule collect_Inr)
    fix r
    assume "r \<in> set (map (drawPath cfg (Some g) (Some tn)) (visiblePaths s))"
    then obtain p where p: "p \<in> set (visiblePaths s)" and r: "r = drawPath cfg (Some g) (Some tn) p"
      by auto
    from p assms(2) obtain rnd where "p \<in> set (batch cfg rnd)"
      by (auto simp: renderable_def)
    then show "\<exists>xs. r = Inr xs"
      unfolding r by (rule drawPath_batch [OF assms(1) _ scheme(2)])
  qed
qed

text \<open>
  On every state either component reaches from its initial state, with random draws that
  are doubles in \<open>[0, 1)\<close>, the render effect completes: no call of \<^verbatim>\<open>interpolateColor\<close>
  throws, also when several generations overlap.
\<close>

lemma render_never_throws:
  assumes "reachable GridCanvas init_GridCanvas s"
  shows "\<exists>ds. render GridCanvas s = Inr ds"
  by (rule render_renderable [OF _ reachable_renderable [OF assms]])
     (simp_all add: init_GridCanvas_def)

lemma render_never_throws_Pachinko:
  assumes "reachable PachinkoCanvas init_PachinkoCanvas s"
  shows "\<exists>ds. render PachinkoCanvas s = Inr ds"
  by (rule render_renderable [OF _ reachable_renderable [OF assms]])
     (simp_all add: init_PachinkoCanvas_def)

end
